theory Spec2Isabelle
  imports Main "HOL-Library.Mapping" "HOL-Library.AList_Mapping"
begin

section \<open>The TTL-capable cache of \<^verbatim>\<open>lru.go\<close>\<close>

subsection \<open>Data model\<close>

text \<open>
  \<^verbatim>\<open>type Key string\<close>. A \<^verbatim>\<open>*list.Element\<close> is an address: the index of the element in
  the store \<open>elems\<close> of all elements ever allocated by \<^verbatim>\<open>PushFront\<close>. Instants
  (\<^verbatim>\<open>time.Time\<close>) and durations (\<^verbatim>\<open>time.Duration\<close>) are integers, in nanoseconds; the zero
  \<^verbatim>\<open>time.Time\<close> of a field that was never assigned is \<open>0\<close>.
\<close>

type_synonym Key = string
type_synonym element = nat

record 'v listItem =
  key :: Key
  val :: 'v
  expiresAt :: int

text \<open>
  The two ways the program can stop other than by returning: the values of
  \<^verbatim>\<open>errors.New\<close> that \<^verbatim>\<open>New\<close> and \<^verbatim>\<open>WithTTL\<close> return, and run-time panics.
\<close>

datatype error =
  CapMustBePositive
| TtlDurationMustBePositive
| TicksMustBeGreater1

datatype panic =
  NilPointerDereference
| NonPositiveTickerInterval

text \<open>
  The goroutine of a \<^verbatim>\<open>WithTTL\<close> option. The \<^verbatim>\<open>go\<close> statement only spawns it: it has
  captured \<^verbatim>\<open>ticks\<close> and its context, and has not run yet. When it starts it creates
  its ticker, whose period is stored; from then on it is in its loop, until its
  \<^verbatim>\<open>select\<close> takes \<^verbatim>\<open>ctx.Done()\<close> and it returns. \<open>ctx_done\<close> says whether its context has
  been cancelled, which the goroutine notices only in that \<^verbatim>\<open>select\<close>.
\<close>

datatype stage = Spawned | Looping int | Returned

record sweeper =
  captured_ticks :: int
  ctx_done :: bool
  stage :: stage

text \<open>
  \<^verbatim>\<open>LRUCache\<close>. \<open>cancel\<close> is \<open>None\<close> for a nil \<^verbatim>\<open>context.CancelFunc\<close> and otherwise names
  the sweeper whose context it cancels. \<open>items\<close> is the hash table, \<open>queue\<close> the chain of
  elements of the \<^verbatim>\<open>list.List\<close> from front to back, \<open>elems\<close> the \<^verbatim>\<open>Value\<close> of every
  element allocated so far, \<open>sweepers\<close> the goroutines started for this cache. The field
  \<^verbatim>\<open>cf\<close> is always \<^verbatim>\<open>clearExpired\<close> in a cache built by \<^verbatim>\<open>New\<close> and is not a field here;
  the mutex \<^verbatim>\<open>mu\<close> is discussed with \<open>Clear\<close> below.
\<close>

record 'v LRUCache =
  cap :: int
  ttl :: int
  cancel :: "nat option"
  items :: "(Key, element) mapping"
  queue :: "element list"
  elems :: "'v listItem list"
  sweepers :: "sweeper list"

subsection \<open>The operations of \<^verbatim>\<open>container/list\<close> that the cache uses\<close>

text \<open>
  On the chain of elements, front first; \<^verbatim>\<open>Len\<close> is its length and \<^verbatim>\<open>Init\<close> makes it
  empty. \<^verbatim>\<open>MoveToFront\<close> and \<^verbatim>\<open>Remove\<close> leave the list as it is when the element does not
  belong to it, which here is not being on the chain. (An element that \<^verbatim>\<open>Init\<close> has
  dropped still names the list as its own; the cache drops its references to such
  elements together with the hash table, and nothing below applies \<^verbatim>\<open>MoveToFront\<close> or
  \<^verbatim>\<open>Remove\<close> to one.)
\<close>

definition Back :: "element list \<Rightarrow> element option" where
  "Back q = (if length q = 0 then None else Some (last q))"

definition MoveToFront :: "element \<Rightarrow> element list \<Rightarrow> element list" where
  "MoveToFront e q = (if e \<in> set q then e # remove1 e q else q)"

definition Remove :: "element \<Rightarrow> element list \<Rightarrow> element list" where
  "Remove e q = remove1 e q"

text \<open>
  \<^verbatim>\<open>PushFront\<close> allocates a new element, at the next free address of the store, and
  puts it at the front of the chain; it returns the element.
\<close>

definition PushFront :: "'a \<Rightarrow> 'a list \<Rightarrow> element list \<Rightarrow> element \<times> 'a list \<times> element list" where
  "PushFront v es q = (let e = length es in (e, es @ [v], e # q))"

text \<open>
  \<^verbatim>\<open>time.NewTicker\<close> panics on an interval that is not positive. The quotient of two
  durations is truncated towards zero.
\<close>

definition NewTicker :: "int \<Rightarrow> panic + int" where
  "NewTicker d = (if d \<le> 0 then Inl NonPositiveTickerInterval else Inr d)"

definition quo :: "int \<Rightarrow> int \<Rightarrow> int" where
  "quo a b = sgn a * sgn b * (\<bar>a\<bar> div \<bar>b\<bar>)"

subsection \<open>Construction\<close>

text \<open>
  An \<^verbatim>\<open>Option\<close> is a closure that updates the cache through its pointer and returns an
  error or nil. The closures the package builds are those of \<^verbatim>\<open>WithTTL(ttl, ticks)\<close>, so
  an option is the pair of arguments it has captured, and \<open>apply_Option\<close> is the body of
  the closure: it returns the error, if any, and the cache as it left it. The goroutine
  it spawns is added to \<open>sweepers\<close>; what the goroutine does when it runs is \<open>start\<close>,
  \<open>tick\<close> and \<open>stop\<close> below.
\<close>

datatype Option = WithTTL int int

fun apply_Option :: "Option \<Rightarrow> 'v LRUCache \<Rightarrow> error option \<times> 'v LRUCache" where
  "apply_Option (WithTTL d ticks) l =
     (if d \<le> 0 then (Some TtlDurationMustBePositive, l)
      else if ticks \<le> 1 then (Some TicksMustBeGreater1, l)
      else (None,
            l\<lparr>ttl := d,
              cancel := Some (length (sweepers l)),
              sweepers := sweepers l @
                [\<lparr>captured_ticks = ticks, ctx_done = False, stage = Spawned\<rparr>]\<rparr>))"

text \<open>The loop of \<^verbatim>\<open>New\<close> over its options: it stops at the first error.\<close>

fun apply_options :: "Option list \<Rightarrow> 'v LRUCache \<Rightarrow> error option \<times> 'v LRUCache" where
  "apply_options [] l = (None, l)"
| "apply_options (opt # options) l =
     (case apply_Option opt l of
        (Some err, l') \<Rightarrow> (Some err, l')
      | (None, l') \<Rightarrow> apply_options options l')"

definition new_cache :: "int \<Rightarrow> 'v LRUCache" where
  "new_cache c =
     \<lparr>cap = c, ttl = 0, cancel = None, items = Mapping.empty, queue = [], elems = [],
      sweepers = []\<rparr>"

definition New :: "int \<Rightarrow> Option list \<Rightarrow> error + 'v LRUCache" where
  "New c options =
     (if c \<le> 0 then Inl CapMustBePositive
      else case apply_options options (new_cache c) of
             (Some err, _) \<Rightarrow> Inl err
           | (None, l) \<Rightarrow> Inr l)"

subsection \<open>Set, Get, Clear\<close>

text \<open>
  \<^verbatim>\<open>deleteItem\<close> removes the node from the queue and its key from the hash table; on a
  nil node, \<^verbatim>\<open>l.queue.Remove(node)\<close> dereferences nil.
\<close>

definition deleteItem :: "element option \<Rightarrow> 'v LRUCache \<Rightarrow> panic + 'v LRUCache" where
  "deleteItem node l =
     (case node of
        None \<Rightarrow> Inl NilPointerDereference
      | Some e \<Rightarrow>
          Inr (l\<lparr>queue := Remove e (queue l),
                 items := Mapping.delete (key (elems l ! e)) (items l)\<rparr>))"

text \<open>
  \<open>now\<close> is the reading of \<^verbatim>\<open>time.Now()\<close> that the call takes. \<^verbatim>\<open>Set\<close> returns the
  boolean and the cache after the call, or the panic that ended it.
\<close>

definition Set :: "Key \<Rightarrow> 'v \<Rightarrow> int \<Rightarrow> 'v LRUCache \<Rightarrow> panic + (bool \<times> 'v LRUCache)" where
  "Set k v now l =
     (let newItem = \<lparr>key = k, val = v, expiresAt = (if ttl l > 0 then now + ttl l else 0)\<rparr>
      in case Mapping.lookup (items l) k of
           Some node \<Rightarrow>
             Inr (True, l\<lparr>elems := (elems l)[node := newItem],
                          queue := MoveToFront node (queue l)\<rparr>)
         | None \<Rightarrow>
             (case (if int (Mapping.size (items l)) = cap l
                    then deleteItem (Back (queue l)) l else Inr l) of
                Inl p \<Rightarrow> Inl p
              | Inr l' \<Rightarrow>
                  (let (e, es, q) = PushFront newItem (elems l') (queue l')
                   in Inr (False, l'\<lparr>elems := es, queue := q,
                                     items := Mapping.update k e (items l')\<rparr>))))"

text \<open>
  \<^verbatim>\<open>Get\<close> returns \<^verbatim>\<open>(nil, false)\<close>, here \<open>(None, False)\<close>, or \<^verbatim>\<open>(li.value, true)\<close>.
\<close>

definition Get :: "Key \<Rightarrow> int \<Rightarrow> 'v LRUCache \<Rightarrow> ('v option \<times> bool) \<times> 'v LRUCache" where
  "Get k now l =
     (case Mapping.lookup (items l) k of
        None \<Rightarrow> ((None, False), l)
      | Some node \<Rightarrow>
          (let li = elems l ! node;
               li' = (if ttl l > 0 then li\<lparr>expiresAt := now + ttl l\<rparr> else li)
           in ((Some (val li'), True),
               l\<lparr>elems := (elems l)[node := li'],
                 queue := MoveToFront node (queue l)\<rparr>)))"

text \<open>
  \<^verbatim>\<open>Clear\<close> is three statements, and it never takes the mutex. Each statement is a
  function of its own, so that what other callers do between them can be written down.
\<close>

definition Clear_cancel :: "'v LRUCache \<Rightarrow> 'v LRUCache" where
  "Clear_cancel l =
     (case cancel l of
        None \<Rightarrow> l
      | Some i \<Rightarrow>
          l\<lparr>sweepers := (if i < length (sweepers l)
                          then (sweepers l)[i := (sweepers l ! i)\<lparr>ctx_done := True\<rparr>]
                          else sweepers l),
            ttl := 0\<rparr>)"

definition Clear_items :: "'v LRUCache \<Rightarrow> 'v LRUCache" where
  "Clear_items l = l\<lparr>items := Mapping.empty\<rparr>"

definition Clear_queue :: "'v LRUCache \<Rightarrow> 'v LRUCache" where
  "Clear_queue l = l\<lparr>queue := []\<rparr>"

definition Clear :: "'v LRUCache \<Rightarrow> 'v LRUCache" where
  "Clear l = Clear_queue (Clear_items (Clear_cancel l))"

subsection \<open>The sweeper\<close>

text \<open>
  The loop of \<^verbatim>\<open>clearExpired\<close> walks the chain from the back through \<^verbatim>\<open>node.Prev()\<close>;
  the list argument is what is left of that walk, current node first. The code reads
  the clock at every node, within one hold of the mutex; the readings of one scan are
  taken to be the one instant \<open>now\<close>, and \<^verbatim>\<open>time.Until(expiresAt) > 0\<close> is
  \<open>expiresAt - now > 0\<close>.
\<close>

fun clearExpired_loop :: "int \<Rightarrow> element list \<Rightarrow> 'v LRUCache \<Rightarrow> panic + 'v LRUCache" where
  "clearExpired_loop now [] l = Inr l"
| "clearExpired_loop now (node # prevs) l =
     (if expiresAt (elems l ! node) - now > 0 then Inr l
      else case deleteItem (Some node) l of
             Inl p \<Rightarrow> Inl p
           | Inr l' \<Rightarrow> clearExpired_loop now prevs l')"

definition clearExpired :: "int \<Rightarrow> 'v LRUCache \<Rightarrow> panic + 'v LRUCache" where
  "clearExpired now l =
     (if length (queue l) = 0 then Inr l
      else clearExpired_loop now (rev (queue l)) l)"

text \<open>
  The steps of the goroutine of sweeper \<open>i\<close>. \<open>start\<close> is its first statement,
  \<^verbatim>\<open>time.NewTicker(l.ttl / time.Duration(ticks))\<close>, which reads \<^verbatim>\<open>l.ttl\<close> as it is when the
  goroutine gets to run, and panics if the quotient is not positive. \<open>tick\<close> is one
  turn of its loop in which the \<^verbatim>\<open>select\<close> takes \<^verbatim>\<open>ticker.C\<close>: it runs \<^verbatim>\<open>l.cf(l)\<close>. The
  \<^verbatim>\<open>select\<close> may take a tick that is waiting also when the context is already
  cancelled, so a tick needs only that the goroutine is in its loop. \<open>stop\<close> is the turn
  in which the \<^verbatim>\<open>select\<close> takes \<^verbatim>\<open>ctx.Done()\<close>. A step that the goroutine cannot take in
  the stage it is in leaves the cache as it is.
\<close>

definition running :: "sweeper \<Rightarrow> bool" where
  "running s = (case stage s of Looping _ \<Rightarrow> True | _ \<Rightarrow> False)"

definition start :: "nat \<Rightarrow> 'v LRUCache \<Rightarrow> panic + 'v LRUCache" where
  "start i l =
     (if i < length (sweepers l) \<and> stage (sweepers l ! i) = Spawned
      then (case NewTicker (quo (ttl l) (captured_ticks (sweepers l ! i))) of
              Inl p \<Rightarrow> Inl p
            | Inr d \<Rightarrow> Inr (l\<lparr>sweepers := (sweepers l)[i := (sweepers l ! i)\<lparr>stage := Looping d\<rparr>]\<rparr>))
      else Inr l)"

definition tick :: "nat \<Rightarrow> int \<Rightarrow> 'v LRUCache \<Rightarrow> panic + 'v LRUCache" where
  "tick i now l =
     (if i < length (sweepers l) \<and> running (sweepers l ! i) then clearExpired now l
      else Inr l)"

definition stop :: "nat \<Rightarrow> 'v LRUCache \<Rightarrow> 'v LRUCache" where
  "stop i l =
     (if i < length (sweepers l) \<and> running (sweepers l ! i) \<and> ctx_done (sweepers l ! i)
      then l\<lparr>sweepers := (sweepers l)[i := (sweepers l ! i)\<lparr>stage := Returned\<rparr>]\<rparr>
      else l)"

subsection \<open>Callers\<close>

text \<open>
  What happens to a cache is a sequence of events, in the order in which they take
  effect: a call of \<^verbatim>\<open>Set\<close>, \<^verbatim>\<open>Get\<close> or \<^verbatim>\<open>Clear\<close> with the clock reading it takes, or a
  step of the goroutine of sweeper \<open>i\<close>, which for a tick comes with the clock reading
  of its scan. \<open>run\<close> performs them one after the other, each to its end before the
  next begins, and collects what the calls return; a panic ends the run. The clock
  reading of a \<^verbatim>\<open>Set\<close> is the one it took before it locked the mutex, so it can be
  older than the reading of the event before it.
\<close>

datatype 'v call = CallSet Key 'v | CallGet Key | CallClear

datatype 'v event = Call "'v call" int | Tick nat int | Start nat | Stop nat

datatype 'v result = SetResult bool | GetResult "'v option" bool | ClearResult

fun perform :: "'v call \<Rightarrow> int \<Rightarrow> 'v LRUCache \<Rightarrow> panic + ('v result \<times> 'v LRUCache)" where
  "perform (CallSet k v) now l =
     (case Set k v now l of Inl p \<Rightarrow> Inl p | Inr (b, l') \<Rightarrow> Inr (SetResult b, l'))"
| "perform (CallGet k) now l =
     (case Get k now l of ((v, found), l') \<Rightarrow> Inr (GetResult v found, l'))"
| "perform CallClear now l = Inr (ClearResult, Clear l)"

fun run :: "'v event list \<Rightarrow> 'v LRUCache \<Rightarrow> panic + ('v result list \<times> 'v LRUCache)" where
  "run [] l = Inr ([], l)"
| "run (Call c now # evs) l =
     (case perform c now l of
        Inl p \<Rightarrow> Inl p
      | Inr (r, l') \<Rightarrow>
          (case run evs l' of Inl p \<Rightarrow> Inl p | Inr (rs, l'') \<Rightarrow> Inr (r # rs, l'')))"
| "run (Tick i now # evs) l =
     (case tick i now l of Inl p \<Rightarrow> Inl p | Inr l' \<Rightarrow> run evs l')"
| "run (Start i # evs) l =
     (case start i l of Inl p \<Rightarrow> Inl p | Inr l' \<Rightarrow> run evs l')"
| "run (Stop i # evs) l = run evs (stop i l)"

text \<open>The clock readings that an event takes.\<close>

fun readings :: "'v event \<Rightarrow> int list" where
  "readings (Call c now) = [now]"
| "readings (Tick i now) = [now]"
| "readings (Start i) = []"
| "readings (Stop i) = []"

text \<open>The entries of a cache in the order of the queue, front first.\<close>

definition entries :: "'v LRUCache \<Rightarrow> 'v listItem list" where
  "entries l = map (\<lambda>e. elems l ! e) (queue l)"

text \<open>Whether an entry counts as expired for a scan that reads the clock at \<open>now\<close>.\<close>

definition expired :: "int \<Rightarrow> 'v listItem \<Rightarrow> bool" where
  "expired now li = (\<not> expiresAt li - now > 0)"

section \<open>The cache without TTL of \<^verbatim>\<open>lruCache.go\<close>\<close>

text \<open>
  Package \<^verbatim>\<open>lruCache\<close> declares its own \<^verbatim>\<open>LRUCache\<close>, \<^verbatim>\<open>listItem\<close>, \<^verbatim>\<open>New\<close>, \<^verbatim>\<open>Set\<close>,
  \<^verbatim>\<open>Get\<close> and \<^verbatim>\<open>Clear\<close>; they carry the package name here.
\<close>

record 'v lruCache_listItem =
  lc_key :: Key
  lc_val :: 'v

record 'v lruCache_LRUCache =
  lc_cap :: int
  lc_items :: "(Key, element) mapping"
  lc_queue :: "element list"
  lc_elems :: "'v lruCache_listItem list"

definition lruCache_New :: "int \<Rightarrow> error + 'v lruCache_LRUCache" where
  "lruCache_New c =
     (if c \<le> 0 then Inl CapMustBePositive
      else Inr \<lparr>lc_cap = c, lc_items = Mapping.empty, lc_queue = [], lc_elems = []\<rparr>)"

definition lruCache_Set ::
  "Key \<Rightarrow> 'v \<Rightarrow> 'v lruCache_LRUCache \<Rightarrow> panic + (bool \<times> 'v lruCache_LRUCache)" where
  "lruCache_Set k v l =
     (case Mapping.lookup (lc_items l) k of
        Some node \<Rightarrow>
          Inr (True, l\<lparr>lc_elems := (lc_elems l)[node := (lc_elems l ! node)\<lparr>lc_val := v\<rparr>],
                       lc_queue := MoveToFront node (lc_queue l)\<rparr>)
      | None \<Rightarrow>
          (case (if int (Mapping.size (lc_items l)) = lc_cap l
                 then (case Back (lc_queue l) of
                         None \<Rightarrow> Inl NilPointerDereference
                       | Some lastNode \<Rightarrow>
                           Inr (l\<lparr>lc_queue := Remove lastNode (lc_queue l),
                                  lc_items := Mapping.delete (lc_key (lc_elems l ! lastNode))
                                                (lc_items l)\<rparr>))
                 else Inr l) of
             Inl p \<Rightarrow> Inl p
           | Inr l' \<Rightarrow>
               (let (e, es, q) = PushFront \<lparr>lc_key = k, lc_val = v\<rparr> (lc_elems l') (lc_queue l')
                in Inr (False, l'\<lparr>lc_elems := es, lc_queue := q,
                                  lc_items := Mapping.update k e (lc_items l')\<rparr>))))"

definition lruCache_Get ::
  "Key \<Rightarrow> 'v lruCache_LRUCache \<Rightarrow> ('v option \<times> bool) \<times> 'v lruCache_LRUCache" where
  "lruCache_Get k l =
     (case Mapping.lookup (lc_items l) k of
        None \<Rightarrow> ((None, False), l)
      | Some node \<Rightarrow>
          ((Some (lc_val (lc_elems l ! node)), True),
           l\<lparr>lc_queue := MoveToFront node (lc_queue l)\<rparr>))"

definition lruCache_Clear :: "'v lruCache_LRUCache \<Rightarrow> 'v lruCache_LRUCache" where
  "lruCache_Clear l = l\<lparr>lc_items := Mapping.empty, lc_queue := []\<rparr>"

fun lruCache_perform ::
  "'v call \<Rightarrow> 'v lruCache_LRUCache \<Rightarrow> panic + ('v result \<times> 'v lruCache_LRUCache)" where
  "lruCache_perform (CallSet k v) l =
     (case lruCache_Set k v l of Inl p \<Rightarrow> Inl p | Inr (b, l') \<Rightarrow> Inr (SetResult b, l'))"
| "lruCache_perform (CallGet k) l =
     (case lruCache_Get k l of ((v, found), l') \<Rightarrow> Inr (GetResult v found, l'))"
| "lruCache_perform CallClear l = Inr (ClearResult, lruCache_Clear l)"

fun lruCache_run ::
  "'v call list \<Rightarrow> 'v lruCache_LRUCache \<Rightarrow> panic + ('v result list \<times> 'v lruCache_LRUCache)" where
  "lruCache_run [] l = Inr ([], l)"
| "lruCache_run (c # cs) l =
     (case lruCache_perform c l of
        Inl p \<Rightarrow> Inl p
      | Inr (r, l') \<Rightarrow>
          (case lruCache_run cs l' of Inl p \<Rightarrow> Inl p | Inr (rs, l'') \<Rightarrow> Inr (r # rs, l'')))"

text \<open>
  The two caches hold the same thing: same capacity, same hash table, same queue, and
  the same key and value in every element.
\<close>

definition same_contents :: "'v lruCache_LRUCache \<Rightarrow> 'v LRUCache \<Rightarrow> bool" where
  "same_contents s l \<longleftrightarrow>
     lc_cap s = cap l \<and> lc_items s = items l \<and> lc_queue s = queue l \<and>
     map (\<lambda>i. (lc_key i, lc_val i)) (lc_elems s) = map (\<lambda>i. (key i, val i)) (elems l)"

section \<open>Invariants\<close>

text \<open>
  The hash table and the queue describe the same entries: the queue has no element
  twice, every element of the queue is allocated and is what the hash table holds for
  its key, and every element in the hash table is on the queue under that key.
\<close>

definition consistent :: "'v LRUCache \<Rightarrow> bool" where
  "consistent l \<longleftrightarrow>
     distinct (queue l) \<and>
     (\<forall>e \<in> set (queue l). e < length (elems l) \<and>
        Mapping.lookup (items l) (key (elems l ! e)) = Some e) \<and>
     (\<forall>k e. Mapping.lookup (items l) k = Some e \<longrightarrow>
        e \<in> set (queue l) \<and> key (elems l ! e) = k)"

definition bounded :: "'v LRUCache \<Rightarrow> bool" where
  "bounded l \<longleftrightarrow> 0 < cap l \<and> int (length (queue l)) \<le> cap l"

text \<open>
  The cancel function is that of the sweeper spawned last, and without one there is
  neither a TTL nor a sweeper.
\<close>

definition cancel_ok :: "'v LRUCache \<Rightarrow> bool" where
  "cancel_ok l \<longleftrightarrow>
     0 \<le> ttl l \<and>
     (case cancel l of
        None \<Rightarrow> ttl l = 0 \<and> sweepers l = []
      | Some i \<Rightarrow> Suc i = length (sweepers l))"

text \<open>What every operation keeps, and what no operation but \<open>Clear\<close> changes.\<close>

definition inv :: "'v LRUCache \<Rightarrow> bool" where
  "inv l \<longleftrightarrow> consistent l \<and> bounded l \<and> cancel_ok l"

definition unchanged :: "'v LRUCache \<Rightarrow> 'v LRUCache \<Rightarrow> bool" where
  "unchanged l l' \<longleftrightarrow>
     cap l' = cap l \<and> ttl l' = ttl l \<and> cancel l' = cancel l \<and> sweepers l' = sweepers l"

text \<open>
  The expirations do not decrease from the back of the queue to the front, and with a
  TTL none is later than one TTL after the clock reading \<open>t\<close>; without a TTL no entry
  has an expiration.
\<close>

definition expiry_ordered :: "int \<Rightarrow> 'v LRUCache \<Rightarrow> bool" where
  "expiry_ordered t l \<longleftrightarrow>
     sorted_wrt (\<lambda>a b. expiresAt (elems l ! b) \<le> expiresAt (elems l ! a)) (queue l) \<and>
     (\<forall>a \<in> set (queue l).
        if ttl l > 0 then expiresAt (elems l ! a) \<le> t + ttl l
        else expiresAt (elems l ! a) = 0)"

text \<open>The value that the cache holds for a key, if it holds one.\<close>

definition value_of :: "'v LRUCache \<Rightarrow> Key \<Rightarrow> 'v option" where
  "value_of l k = map_option (\<lambda>e. val (elems l ! e)) (Mapping.lookup (items l) k)"

text \<open>
  A call of \<open>Set\<close> given as key, value and clock reading: the event it is, and the
  binding it asks for.
\<close>

fun set_event :: "Key \<times> 'v \<times> int \<Rightarrow> 'v event" where
  "set_event (k, v, now) = Call (CallSet k v) now"

fun binding :: "Key \<times> 'v \<times> int \<Rightarrow> Key \<times> 'v" where
  "binding (k, v, now) = (k, v)"

text \<open>A call with the clock reading it takes, as an event.\<close>

fun stamp :: "'v call \<times> int \<Rightarrow> 'v event" where
  "stamp (c, now) = Call c now"

text \<open>
  The relation between the two caches that every call keeps: the same contents, in a
  TTL-capable cache whose TTL is off.
\<close>

definition refines :: "'v lruCache_LRUCache \<Rightarrow> 'v LRUCache \<Rightarrow> bool" where
  "refines s l \<longleftrightarrow> same_contents s l \<and> ttl l = 0 \<and> inv l"

section \<open>The invariants hold in every state of a constructed cache\<close>

lemma lookup_delete_if:
  "Mapping.lookup (Mapping.delete k m) k' = (if k = k' then None else Mapping.lookup m k')"
  by (simp add: lookup_delete_neq)

lemma keys_consistent:
  assumes "consistent l"
  shows "Mapping.keys (items l) = (\<lambda>e. key (elems l ! e)) ` set (queue l)"
  using assms unfolding consistent_def keys_dom_lookup
  by (auto simp: dom_def image_iff) 

lemma inj_consistent:
  assumes "consistent l"
  shows "inj_on (\<lambda>e. key (elems l ! e)) (set (queue l))"
  using assms unfolding consistent_def inj_on_def
  by (metis option.inject)

lemma size_consistent:
  assumes "consistent l"
  shows "Mapping.size (items l) = length (queue l)"
proof -
  have "card (Mapping.keys (items l)) = card (set (queue l))"
    by (simp add: keys_consistent [OF assms] card_image [OF inj_consistent [OF assms]])
  moreover have "finite (Mapping.keys (items l))"
    by (simp add: keys_consistent [OF assms])
  moreover have "card (set (queue l)) = length (queue l)"
    using assms by (simp add: consistent_def distinct_card)
  ultimately show ?thesis by (simp add: Mapping.size_def)
qed

lemma consistent_new_cache: "consistent (new_cache c)"
  by (simp add: consistent_def new_cache_def)

lemma consistent_fields:
  assumes "items l' = items l" "queue l' = queue l" "map key (elems l') = map key (elems l)"
  shows "consistent l' = consistent l"
proof -
  have len: "length (elems l') = length (elems l)"
    using assms(3) by (metis length_map)
  have "\<And>e. e < length (elems l) \<Longrightarrow> key (elems l' ! e) = key (elems l ! e)"
    using assms(3) len by (metis nth_map)
  then show ?thesis
    unfolding consistent_def assms(1,2) len
    by force
qed

lemma consistent_deleteItem:
  assumes c: "consistent l" and e: "e \<in> set (queue l)"
  shows "consistent (l\<lparr>queue := remove1 e (queue l),
                         items := Mapping.delete (key (elems l ! e)) (items l)\<rparr>)"
    (is "consistent ?l'")
proof -
  let ?k = "\<lambda>a. key (elems l ! a)"
  have d: "distinct (queue l)" using c by (simp add: consistent_def)
  have q: "\<And>a. a \<in> set (queue l) \<Longrightarrow> a < length (elems l) \<and> Mapping.lookup (items l) (?k a) = Some a"
    using c by (simp add: consistent_def)
  have m: "\<And>k a. Mapping.lookup (items l) k = Some a \<Longrightarrow> a \<in> set (queue l) \<and> ?k a = k"
    using c unfolding consistent_def by blast
  have ne: "\<And>a. a \<in> set (queue l) \<Longrightarrow> a \<noteq> e \<Longrightarrow> ?k a \<noteq> ?k e"
    using q e by (metis option.inject)
  have lk: "\<And>k. Mapping.lookup (items ?l') k = (if k = ?k e then None else Mapping.lookup (items l) k)"
    by (auto simp: lookup_delete_if)
  show ?thesis
    unfolding consistent_def
  proof (intro conjI ballI allI impI)
    show "distinct (queue ?l')" using d by simp
  next
    fix a assume "a \<in> set (queue ?l')"
    then have a: "a \<in> set (queue l)" "a \<noteq> e" using d by auto
    then show "a < length (elems ?l')" using q by simp
    show "Mapping.lookup (items ?l') (key (elems ?l' ! a)) = Some a"
      using a q [of a] ne [of a] by (auto simp: lookup_delete_if)
  next
    fix k a assume h: "Mapping.lookup (items ?l') k = Some a"
    then have k: "k \<noteq> ?k e" and h': "Mapping.lookup (items l) k = Some a"
      by (auto simp: lookup_delete_if split: if_splits)
    from m [OF h'] have "a \<in> set (queue l)" "?k a = k" by auto
    with k have "a \<noteq> e" by auto
    then show "a \<in> set (queue ?l')" using \<open>a \<in> set (queue l)\<close> by simp
    show "key (elems ?l' ! a) = k" using \<open>?k a = k\<close> by simp
  qed
qed


lemma consistent_push:
  assumes c: "consistent l" and n: "Mapping.lookup (items l) k = None" and k: "key it = k"
  shows "consistent (l\<lparr>elems := elems l @ [it], queue := length (elems l) # queue l,
                         items := Mapping.update k (length (elems l)) (items l)\<rparr>)"
    (is "consistent ?l'")
proof -
  let ?n = "length (elems l)"
  have d: "distinct (queue l)" using c by (simp add: consistent_def)
  have q: "\<And>a. a \<in> set (queue l) \<Longrightarrow>
             a < ?n \<and> Mapping.lookup (items l) (key (elems l ! a)) = Some a"
    using c by (simp add: consistent_def)
  have m: "\<And>k a. Mapping.lookup (items l) k = Some a \<Longrightarrow>
             a \<in> set (queue l) \<and> key (elems l ! a) = k"
    using c unfolding consistent_def by blast
  have fresh: "?n \<notin> set (queue l)" using q by blast
  have old: "\<And>a. a \<in> set (queue l) \<Longrightarrow> key (elems l ! a) \<noteq> k"
    using q n by (metis option.distinct(1))
  show ?thesis
    unfolding consistent_def
  proof (intro conjI ballI allI impI)
    show "distinct (queue ?l')" using d fresh by simp
  next
    fix a assume a: "a \<in> set (queue ?l')"
    show "a < length (elems ?l')" using a q [of a] by auto
    show "Mapping.lookup (items ?l') (key (elems ?l' ! a)) = Some a"
    proof (cases "a = ?n")
      case True
      then show ?thesis using k by simp
    next
      case False
      with a have a': "a \<in> set (queue l)" by simp
      with q [of a] old [of a] show ?thesis by (auto simp: nth_append lookup_update')
    qed
  next
    fix k' a assume h: "Mapping.lookup (items ?l') k' = Some a"
    show "a \<in> set (queue ?l')"
      using h m by (auto simp: lookup_update' split: if_splits)
    show "key (elems ?l' ! a) = k'"
    proof (cases "k' = k")
      case True
      with h have "a = ?n" by simp
      then show ?thesis using k True by simp
    next
      case False
      with h have h': "Mapping.lookup (items l) k' = Some a" by (simp add: lookup_update')
      from m [OF h'] q show ?thesis by (auto simp: nth_append)
    qed
  qed
qed

lemma consistent_touch:
  assumes c: "consistent l" and n: "Mapping.lookup (items l) k = Some e" and k: "key it = k"
  shows "consistent (l\<lparr>elems := (elems l)[e := it], queue := MoveToFront e (queue l)\<rparr>)"
    (is "consistent ?l'")
proof -
  have d: "distinct (queue l)" using c by (simp add: consistent_def)
  have q: "\<And>a. a \<in> set (queue l) \<Longrightarrow>
             a < length (elems l) \<and> Mapping.lookup (items l) (key (elems l ! a)) = Some a"
    using c by (simp add: consistent_def)
  have m: "\<And>k a. Mapping.lookup (items l) k = Some a \<Longrightarrow>
             a \<in> set (queue l) \<and> key (elems l ! a) = k"
    using c unfolding consistent_def by blast
  have e: "e \<in> set (queue l)" "key (elems l ! e) = k" using m [OF n] by auto
  have keys: "key ((elems l)[e := it] ! a) = key (elems l ! a)" if "a < length (elems l)" for a
    using that e k by (cases "a = e") simp_all
  have qs: "set (MoveToFront e (queue l)) = set (queue l)"
    using e d by (auto simp: MoveToFront_def)
  have qd: "distinct (MoveToFront e (queue l))"
    using e d by (simp add: MoveToFront_def)
  show ?thesis
    unfolding consistent_def
  proof (intro conjI ballI allI impI)
    show "distinct (queue ?l')" using qd by simp
  next
    fix a assume a: "a \<in> set (queue ?l')"
    then have a': "a \<in> set (queue l)" using qs by simp
    show "a < length (elems ?l')" using q [OF a'] by simp
    show "Mapping.lookup (items ?l') (key (elems ?l' ! a)) = Some a"
      using q [OF a'] keys [of a] by simp
  next
    fix k' a assume h: "Mapping.lookup (items ?l') k' = Some a"
    then have h': "Mapping.lookup (items l) k' = Some a" by simp
    show "a \<in> set (queue ?l')" using m [OF h'] qs by simp
    show "key (elems ?l' ! a) = k'" using m [OF h'] q [of a] keys [of a] by simp
  qed
qed

lemma Set_present:
  assumes "Mapping.lookup (items l) k = Some e"
  shows "Set k v now l =
           Inr (True, l\<lparr>elems := (elems l)[e := \<lparr>key = k, val = v,
                                    expiresAt = (if ttl l > 0 then now + ttl l else 0)\<rparr>],
                         queue := MoveToFront e (queue l)\<rparr>)"
  using assms by (simp add: Set_def)

lemma Set_absent_room:
  assumes "Mapping.lookup (items l) k = None" "int (Mapping.size (items l)) \<noteq> cap l"
  shows "Set k v now l =
           Inr (False, l\<lparr>elems := elems l @ [\<lparr>key = k, val = v,
                                    expiresAt = (if ttl l > 0 then now + ttl l else 0)\<rparr>],
                          queue := length (elems l) # queue l,
                          items := Mapping.update k (length (elems l)) (items l)\<rparr>)"
  using assms by (simp add: Set_def PushFront_def Let_def)

lemma Set_absent_full:
  assumes "Mapping.lookup (items l) k = None" "int (Mapping.size (items l)) = cap l"
    "queue l \<noteq> []"
  shows "Set k v now l =
           Inr (False, l\<lparr>elems := elems l @ [\<lparr>key = k, val = v,
                                    expiresAt = (if ttl l > 0 then now + ttl l else 0)\<rparr>],
                          queue := length (elems l) # remove1 (last (queue l)) (queue l),
                          items := Mapping.update k (length (elems l))
                             (Mapping.delete (key (elems l ! last (queue l))) (items l))\<rparr>)"
  using assms by (simp add: Set_def PushFront_def deleteItem_def Back_def Remove_def Let_def)

lemma Set_absent_empty:
  assumes "Mapping.lookup (items l) k = None" "int (Mapping.size (items l)) = cap l"
    "queue l = []"
  shows "Set k v now l = Inl NilPointerDereference"
  using assms by (simp add: Set_def deleteItem_def Back_def)



lemma cancel_ok_cong:
  "ttl l' = ttl l \<Longrightarrow> cancel l' = cancel l \<Longrightarrow> sweepers l' = sweepers l \<Longrightarrow>
   cancel_ok l' = cancel_ok l"
  by (simp add: cancel_ok_def split: option.splits)

lemma bounded_cong:
  "cap l' = cap l \<Longrightarrow> length (queue l') = length (queue l) \<Longrightarrow> bounded l' = bounded l"
  by (simp add: bounded_def)

lemma length_MoveToFront: "length (MoveToFront e q) = length q"
  using length_pos_if_in_set [of e q] by (auto simp: MoveToFront_def length_remove1)

lemma Set_total:
  assumes "inv l"
  obtains b l' where "Set k v now l = Inr (b, l')"
proof -
  from assms have c: "consistent l" and b: "bounded l" by (simp_all add: inv_def)
  have sz: "Mapping.size (items l) = length (queue l)" by (rule size_consistent [OF c])
  show ?thesis
  proof (cases "Mapping.lookup (items l) k")
    case (Some e)
    then show ?thesis using that by (simp add: Set_present)
  next
    case None
    show ?thesis
    proof (cases "int (Mapping.size (items l)) = cap l")
      case False
      then show ?thesis using that None by (simp add: Set_absent_room)
    next
      case True
      then have ne: "queue l \<noteq> []" using b sz by (auto simp: bounded_def)
      then show ?thesis using that None True by (simp add: Set_absent_full)
    qed
  qed
qed

lemma Set_inv:
  assumes i: "inv l" and s: "Set k v now l = Inr (b, l')"
  shows "inv l' \<and> unchanged l l'"
proof -
  from i have c: "consistent l" and bd: "bounded l" and o: "cancel_ok l"
    by (simp_all add: inv_def)
  have sz: "Mapping.size (items l) = length (queue l)" by (rule size_consistent [OF c])
  let ?it = "\<lparr>key = k, val = v, expiresAt = (if ttl l > 0 then now + ttl l else 0)\<rparr>"
  show ?thesis
  proof (cases "Mapping.lookup (items l) k")
    case (Some e)
    let ?l' = "l\<lparr>elems := (elems l)[e := ?it], queue := MoveToFront e (queue l)\<rparr>"
    have l': "l' = ?l'" using s by (simp add: Set_present [OF Some])
    have "consistent ?l'" by (rule consistent_touch [OF c Some]) simp
    moreover have "bounded ?l' = bounded l"
      by (rule bounded_cong) (simp_all add: length_MoveToFront)
    moreover have "cancel_ok ?l' = cancel_ok l" by (rule cancel_ok_cong) simp_all
    ultimately show ?thesis using bd o by (simp add: l' inv_def unchanged_def)
  next
    case None
    show ?thesis
    proof (cases "int (Mapping.size (items l)) = cap l")
      case False
      let ?l' = "l\<lparr>elems := elems l @ [?it], queue := length (elems l) # queue l,
                   items := Mapping.update k (length (elems l)) (items l)\<rparr>"
      have l': "l' = ?l'" using s by (simp add: Set_absent_room [OF None False])
      have "consistent ?l'" by (rule consistent_push [OF c None]) simp
      moreover have "bounded ?l'" using bd False sz by (simp add: bounded_def)
      moreover have "cancel_ok ?l' = cancel_ok l" by (rule cancel_ok_cong) simp_all
      ultimately show ?thesis using o by (simp add: l' inv_def unchanged_def)
    next
      case True
      then have ne: "queue l \<noteq> []" using bd sz by (auto simp: bounded_def)
      then have la: "last (queue l) \<in> set (queue l)" by simp
      let ?l1 = "l\<lparr>queue := remove1 (last (queue l)) (queue l),
                   items := Mapping.delete (key (elems l ! last (queue l))) (items l)\<rparr>"
      let ?l' = "l\<lparr>elems := elems l @ [?it],
                   queue := length (elems l) # remove1 (last (queue l)) (queue l),
                   items := Mapping.update k (length (elems l))
                     (Mapping.delete (key (elems l ! last (queue l))) (items l))\<rparr>"
      have l': "l' = ?l'" using s by (simp add: Set_absent_full [OF None True ne])
      have c1: "consistent ?l1" by (rule consistent_deleteItem [OF c la])
      have n1: "Mapping.lookup (items ?l1) k = None"
        using None by (simp add: lookup_delete_if)
      have "consistent (?l1\<lparr>elems := elems ?l1 @ [?it], queue := length (elems ?l1) # queue ?l1,
                         items := Mapping.update k (length (elems ?l1)) (items ?l1)\<rparr>)"
        by (rule consistent_push [OF c1 n1]) simp
      then have "consistent ?l'" by simp
      moreover have "bounded ?l'"
        using bd la ne by (simp add: bounded_def length_remove1)
      moreover have "cancel_ok ?l' = cancel_ok l" by (rule cancel_ok_cong) simp_all
      ultimately show ?thesis using o by (simp add: l' inv_def unchanged_def)
    qed
  qed
qed

lemma Get_absent: "Mapping.lookup (items l) k = None \<Longrightarrow> Get k now l = ((None, False), l)"
  by (simp add: Get_def)

lemma Get_present:
  "Mapping.lookup (items l) k = Some e \<Longrightarrow>
   Get k now l =
     ((Some (val (elems l ! e)), True),
      l\<lparr>elems := (elems l)[e := (if ttl l > 0 then (elems l ! e)\<lparr>expiresAt := now + ttl l\<rparr>
                                  else elems l ! e)],
        queue := MoveToFront e (queue l)\<rparr>)"
  by (simp add: Get_def Let_def)

lemma Get_inv:
  assumes i: "inv l" and g: "Get k now l = (r, l')"
  shows "inv l' \<and> unchanged l l'"
proof -
  from i have c: "consistent l" and bd: "bounded l" and o: "cancel_ok l"
    by (simp_all add: inv_def)
  show ?thesis
  proof (cases "Mapping.lookup (items l) k")
    case None
    then show ?thesis using i g by (simp add: Get_absent unchanged_def)
  next
    case (Some e)
    have e: "e \<in> set (queue l)" "key (elems l ! e) = k"
      using c Some unfolding consistent_def by blast+
    let ?it = "if ttl l > 0 then (elems l ! e)\<lparr>expiresAt := now + ttl l\<rparr> else elems l ! e"
    let ?l' = "l\<lparr>elems := (elems l)[e := ?it], queue := MoveToFront e (queue l)\<rparr>"
    have l': "l' = ?l'" using g by (simp add: Get_present [OF Some])
    have "consistent ?l'" by (rule consistent_touch [OF c Some]) (simp add: e)
    moreover have "bounded ?l' = bounded l"
      by (rule bounded_cong) (simp_all add: length_MoveToFront)
    moreover have "cancel_ok ?l' = cancel_ok l" by (rule cancel_ok_cong) simp_all
    ultimately show ?thesis using bd o by (simp add: l' inv_def unchanged_def)
  qed
qed

lemma Clear_eq:
  "Clear l =
     (case cancel l of
        None \<Rightarrow> l\<lparr>items := Mapping.empty, queue := []\<rparr>
      | Some i \<Rightarrow>
          l\<lparr>sweepers := (if i < length (sweepers l)
                          then (sweepers l)[i := (sweepers l ! i)\<lparr>ctx_done := True\<rparr>]
                          else sweepers l),
            ttl := 0, items := Mapping.empty, queue := []\<rparr>)"
  by (simp add: Clear_def Clear_queue_def Clear_items_def Clear_cancel_def split: option.splits)

lemma Clear_inv:
  assumes "inv l"
  shows "inv (Clear l) \<and> cap (Clear l) = cap l \<and> cancel (Clear l) = cancel l"
  using assms
  by (auto simp: Clear_eq inv_def consistent_def bounded_def cancel_ok_def split: option.splits)

lemma deleteItem_Some:
  "deleteItem (Some e) l =
     Inr (l\<lparr>queue := remove1 e (queue l),
            items := Mapping.delete (key (elems l ! e)) (items l)\<rparr>)"
  by (simp add: deleteItem_def Remove_def)

lemma clearExpired_loop_eq:
  assumes "distinct ns" "queue l = rev ns"
  shows "clearExpired_loop now ns l =
           Inr (l\<lparr>queue := rev (dropWhile (\<lambda>e. expired now (elems l ! e)) ns),
                  items := fold (\<lambda>e. Mapping.delete (key (elems l ! e)))
                             (takeWhile (\<lambda>e. expired now (elems l ! e)) ns) (items l)\<rparr>)"
  using assms
proof (induction ns arbitrary: l)
  case Nil
  then show ?case by simp
next
  case (Cons node prevs)
  let ?l1 = "l\<lparr>queue := remove1 node (queue l),
               items := Mapping.delete (key (elems l ! node)) (items l)\<rparr>"
  have q1: "queue ?l1 = rev prevs" using Cons.prems by (simp add: remove1_append)
  have d1: "distinct prevs" using Cons.prems by simp
  show ?case
  proof (cases "expired now (elems l ! node)")
    case False
    then show ?thesis using Cons.prems by (simp add: expired_def)
  next
    case True
    then have "clearExpired_loop now (node # prevs) l = clearExpired_loop now prevs ?l1"
      by (simp add: expired_def deleteItem_Some)
    also note Cons.IH [OF d1 q1]
    finally show ?thesis using True by simp
  qed
qed

lemma clearExpired_eq:
  assumes "distinct (queue l)"
  shows "clearExpired now l =
           Inr (l\<lparr>queue := rev (dropWhile (\<lambda>e. expired now (elems l ! e)) (rev (queue l))),
                  items := fold (\<lambda>e. Mapping.delete (key (elems l ! e)))
                             (takeWhile (\<lambda>e. expired now (elems l ! e)) (rev (queue l)))
                             (items l)\<rparr>)"
proof (cases "queue l = []")
  case True
  then show ?thesis by (simp add: clearExpired_def)
next
  case False
  then show ?thesis
    using clearExpired_loop_eq [of "rev (queue l)" l now] assms
    by (simp add: clearExpired_def)
qed

lemma clearExpired_loop_inv:
  assumes "consistent l" "queue l = rev ns" "clearExpired_loop now ns l = Inr l'"
  shows "consistent l' \<and> unchanged l l' \<and> elems l' = elems l \<and>
         length (queue l') \<le> length (queue l)"
  using assms
proof (induction ns arbitrary: l)
  case Nil
  then show ?case by (simp add: unchanged_def)
next
  case (Cons node prevs)
  let ?l1 = "l\<lparr>queue := remove1 node (queue l),
               items := Mapping.delete (key (elems l ! node)) (items l)\<rparr>"
  have d: "distinct (queue l)" using Cons.prems(1) by (simp add: consistent_def)
  have q1: "queue ?l1 = rev prevs" using Cons.prems(2) d by (simp add: remove1_append)
  have "node \<in> set (queue l)" using Cons.prems(2) by simp
  then have c1: "consistent ?l1" by (rule consistent_deleteItem [OF Cons.prems(1)])
  show ?case
  proof (cases "expired now (elems l ! node)")
    case False
    then show ?thesis using Cons.prems by (simp add: expired_def unchanged_def)
  next
    case True
    then have "clearExpired_loop now prevs ?l1 = Inr l'"
      using Cons.prems(3) by (simp add: expired_def deleteItem_Some)
    from Cons.IH [OF c1 q1 this] show ?thesis
      using Cons.prems(2) d by (simp add: unchanged_def remove1_append)
  qed
qed

lemma clearExpired_total:
  obtains l' where "clearExpired now l = Inr l'"
proof -
  have "\<exists>l'. clearExpired_loop now ns l = Inr l'" for ns and l :: "'a LRUCache"
    by (induction ns arbitrary: l) (simp_all add: deleteItem_Some)
  then obtain l' where "clearExpired_loop now (rev (queue l)) l = Inr l'" by blast
  then show ?thesis using that by (cases "queue l = []") (simp_all add: clearExpired_def)
qed

lemma clearExpired_inv:
  assumes i: "inv l" and t: "clearExpired now l = Inr l'"
  shows "inv l' \<and> unchanged l l'"
proof (cases "queue l = []")
  case True
  then show ?thesis using i t by (simp add: clearExpired_def unchanged_def)
next
  case False
  then have "clearExpired_loop now (rev (queue l)) l = Inr l'"
    using t by (simp add: clearExpired_def)
  from clearExpired_loop_inv [OF _ _ this] i
  have "consistent l'" "unchanged l l'" "length (queue l') \<le> length (queue l)"
    by (simp_all add: inv_def)
  moreover have "cancel_ok l' = cancel_ok l"
    using \<open>unchanged l l'\<close> by (intro cancel_ok_cong) (simp_all add: unchanged_def)
  ultimately show ?thesis using i by (auto simp: inv_def bounded_def unchanged_def)
qed

lemma tick_inv:
  assumes i: "inv l" and t: "tick j now l = Inr l'"
  shows "inv l' \<and> unchanged l l'"
  using assms clearExpired_inv [of l now l']
  by (auto simp: tick_def unchanged_def split: if_splits)

lemma tick_total:
  obtains l' where "tick j now l = Inr l'"
proof -
  obtain l1 where "clearExpired now l = Inr l1" by (rule clearExpired_total)
  then show ?thesis using that by (cases "j < length (sweepers l) \<and> running (sweepers l ! j)") (simp_all add: tick_def)
qed

lemma apply_Option_inv:
  assumes "inv l" "apply_Option opt l = (None, l')"
  shows "inv l' \<and> cap l' = cap l \<and> queue l' = queue l \<and> items l' = items l \<and> elems l' = elems l"
  using assms
  by (cases opt) (auto simp: inv_def consistent_def bounded_def cancel_ok_def split: if_splits)

lemma apply_options_inv:
  assumes "inv l" "apply_options opts l = (None, l')"
  shows "inv l' \<and> cap l' = cap l \<and> queue l' = queue l \<and> items l' = items l \<and> elems l' = elems l"
  using assms
proof (induction opts arbitrary: l)
  case Nil
  then show ?case by simp
next
  case (Cons opt opts)
  obtain r l1 where a: "apply_Option opt l = (r, l1)" by (cases "apply_Option opt l")
  with Cons.prems(2) have r: "r = None" and rest: "apply_options opts l1 = (None, l')"
    by (auto split: option.splits)
  from apply_Option_inv [OF Cons.prems(1) a [unfolded r]] Cons.IH [OF _ rest]
  show ?case by simp
qed

lemma New_inv:
  assumes "New c opts = Inr l"
  shows "inv l \<and> cap l = c \<and> queue l = [] \<and> items l = Mapping.empty \<and> elems l = []"
proof -
  from assms have c: "0 < c" and a: "apply_options opts (new_cache c) = (None, l)"
    by (auto simp: New_def split: if_splits prod.splits option.splits)
  have "inv (new_cache c :: 'a LRUCache)"
    using c by (simp add: inv_def consistent_def bounded_def cancel_ok_def new_cache_def)
  from apply_options_inv [OF this a] show ?thesis by (simp add: new_cache_def)
qed

lemma inv_sweepers:
  assumes "inv l" and "length sw = length (sweepers l)"
  shows "inv (l\<lparr>sweepers := sw\<rparr>)"
proof -
  have "sw = [] \<longleftrightarrow> sweepers l = []" using assms(2) by (metis length_0_conv)
  then show ?thesis
    using assms
    by (simp add: inv_def consistent_def bounded_def cancel_ok_def split: option.splits)
qed

lemma start_cases:
  "start i l = Inl NonPositiveTickerInterval \<or>
   start i l = Inr l \<or>
   (\<exists>d. start i l =
      Inr (l\<lparr>sweepers := (sweepers l)[i := (sweepers l ! i)\<lparr>stage := Looping d\<rparr>]\<rparr>))"
  by (auto simp: start_def NewTicker_def)

lemma start_inv:
  assumes i: "inv l" and s: "start j l = Inr l'"
  shows "inv l' \<and> cap l' = cap l \<and> ttl l' = ttl l \<and> cancel l' = cancel l \<and>
         items l' = items l \<and> queue l' = queue l \<and> elems l' = elems l \<and>
         length (sweepers l') = length (sweepers l)"
  using start_cases [of j l] s i inv_sweepers [OF i, of "(sweepers l)[j := x]" for x]
  by auto

lemma stop_inv:
  assumes i: "inv l"
  shows "inv (stop j l) \<and> cap (stop j l) = cap l \<and> ttl (stop j l) = ttl l \<and>
         cancel (stop j l) = cancel l \<and> items (stop j l) = items l \<and>
         queue (stop j l) = queue l \<and> elems (stop j l) = elems l \<and>
         length (sweepers (stop j l)) = length (sweepers l)"
  using i inv_sweepers [OF i, of "(sweepers l)[j := x]" for x]
  by (simp add: stop_def)

lemma perform_inv:
  assumes i: "inv l" and p: "perform c now l = Inr (r, l')"
  shows "inv l' \<and> cap l' = cap l"
proof (cases c)
  case (CallSet k v)
  with p obtain b where "Set k v now l = Inr (b, l')"
    by (auto split: sum.splits)
  from Set_inv [OF i this] show ?thesis by (simp add: unchanged_def)
next
  case (CallGet k)
  with p obtain x where "Get k now l = (x, l')"
    by (cases "Get k now l") auto
  from Get_inv [OF i this] show ?thesis by (simp add: unchanged_def)
next
  case CallClear
  with p have "l' = Clear l" by simp
  with Clear_inv [OF i] show ?thesis by simp
qed

lemma perform_total:
  assumes "inv l"
  obtains r l' where "perform c now l = Inr (r, l')"
proof (cases c)
  case (CallSet k v)
  from Set_total [OF assms, of k v now] obtain b l' where "Set k v now l = Inr (b, l')" .
  then show ?thesis using that CallSet by simp
next
  case (CallGet k)
  then show ?thesis using that by (cases "Get k now l") auto
next
  case CallClear
  then show ?thesis using that by simp
qed

lemma run_inv:
  assumes "inv l" "run evs l = Inr (rs, l')"
  shows "inv l' \<and> cap l' = cap l"
  using assms
proof (induction evs arbitrary: l rs)
  case Nil
  then show ?case by simp
next
  case (Cons ev evs)
  show ?case
  proof (cases ev)
    case (Call c now)
    with Cons.prems(2) obtain r l1 rs1 where
      p: "perform c now l = Inr (r, l1)" and r: "run evs l1 = Inr (rs1, l')"
      by (auto split: sum.splits prod.splits)
    from perform_inv [OF Cons.prems(1) p] Cons.IH [OF _ r] show ?thesis by simp
  next
    case (Tick j now)
    with Cons.prems(2) obtain l1 where
      p: "tick j now l = Inr l1" and r: "run evs l1 = Inr (rs, l')"
      by (auto split: sum.splits)
    from tick_inv [OF Cons.prems(1) p] Cons.IH [OF _ r] show ?thesis
      by (simp add: unchanged_def)
  next
    case (Start j)
    with Cons.prems(2) obtain l1 where
      p: "start j l = Inr l1" and r: "run evs l1 = Inr (rs, l')"
      by (auto split: sum.splits)
    from start_inv [OF Cons.prems(1) p] Cons.IH [OF _ r] show ?thesis by simp
  next
    case (Stop j)
    with Cons.prems(2) have r: "run evs (stop j l) = Inr (rs, l')" by simp
    from stop_inv [OF Cons.prems(1), of j] Cons.IH [OF _ r] show ?thesis by simp
  qed
qed

lemma run_panic:
  assumes "inv l" and "run evs l = Inl p"
  shows "p = NonPositiveTickerInterval"
  using assms
proof (induction evs arbitrary: l)
  case Nil
  then show ?case by simp
next
  case (Cons ev evs)
  show ?case
  proof (cases ev)
    case (Call c now)
    from perform_total [OF Cons.prems(1), of c now] obtain r l1 where
      p: "perform c now l = Inr (r, l1)" .
    from perform_inv [OF Cons.prems(1) p] have i1: "inv l1" by simp
    have "run evs l1 = Inl p"
      using Cons.prems(2) Call p by (auto split: sum.splits)
    from Cons.IH [OF i1 this] show ?thesis .
  next
    case (Tick j now)
    from tick_total [of j now l] obtain l1 where p: "tick j now l = Inr l1" .
    from tick_inv [OF Cons.prems(1) p] have i1: "inv l1" by simp
    have "run evs l1 = Inl p" using Cons.prems(2) Tick p by simp
    from Cons.IH [OF i1 this] show ?thesis .
  next
    case (Start j)
    show ?thesis
    proof (cases "start j l")
      case (Inl x)
      then have "x = NonPositiveTickerInterval" using start_cases [of j l] by auto
      then show ?thesis using Cons.prems(2) Start Inl by simp
    next
      case (Inr l1)
      from start_inv [OF Cons.prems(1) Inr] have i1: "inv l1" by simp
      have "run evs l1 = Inl p" using Cons.prems(2) Start Inr by simp
      from Cons.IH [OF i1 this] show ?thesis .
    qed
  next
    case (Stop j)
    from stop_inv [OF Cons.prems(1), of j] have i1: "inv (stop j l)" by simp
    have "run evs (stop j l) = Inl p" using Cons.prems(2) Stop by simp
    from Cons.IH [OF i1 this] show ?thesis .
  qed
qed

lemma run_total:
  assumes "inv l" and "\<forall>ev \<in> set evs. \<forall>j. ev \<noteq> Start j"
  shows "\<exists>rs l'. run evs l = Inr (rs, l')"
  using assms
proof (induction evs arbitrary: l)
  case Nil
  then show ?case by simp
next
  case (Cons ev evs)
  have rest: "\<forall>ev \<in> set evs. \<forall>j. ev \<noteq> Start j" using Cons.prems(2) by simp
  show ?case
  proof (cases ev)
    case (Call c now)
    from perform_total [OF Cons.prems(1), of c now] obtain r l1 where
      p: "perform c now l = Inr (r, l1)" .
    from perform_inv [OF Cons.prems(1) p] have "inv l1" by simp
    from Cons.IH [OF this rest] show ?thesis using Call p by auto
  next
    case (Tick j now)
    from tick_total [of j now l] obtain l1 where p: "tick j now l = Inr l1" .
    from tick_inv [OF Cons.prems(1) p] have "inv l1" by simp
    from Cons.IH [OF this rest] show ?thesis using Tick p by auto
  next
    case (Start j)
    then show ?thesis using Cons.prems(2) by simp
  next
    case (Stop j)
    from stop_inv [OF Cons.prems(1), of j] have "inv (stop j l)" by simp
    from Cons.IH [OF this rest] show ?thesis using Stop by simp
  qed
qed

lemma reach_inv:
  assumes "New c options = Inr l0" and "run evs l0 = Inr (rs, l)"
  shows "inv l \<and> cap l = c"
  using New_inv [OF assms(1)] run_inv [OF _ assms(2)] by simp

lemma consistent_lookup:
  assumes "consistent l" "Mapping.lookup (items l) k = Some e"
  shows "e \<in> set (queue l)" "e < length (elems l)" "key (elems l ! e) = k"
  using assms unfolding consistent_def by blast+

section \<open>Set: what it returns and when it evicts\<close>





section \<open>Get and expired entries\<close>

text \<open>
  C5. In every state of a constructed cache, \<open>Get\<close> on a key that the hash table holds
  returns the value of its entry and true, whatever the entry's \<open>expiresAt\<close> is and
  whatever the clock reads, so also when the entry has expired for that reading. The
  entry stays in the hash table and moves to the front of the queue with its key and
  value; with a TTL its \<open>expiresAt\<close> becomes \<open>now + ttl\<close>, so that it is no longer
  expired, and without one it is untouched.
\<close>

theorem Get_revives_expired_entry:
  assumes "New c options = Inr l0" and "run evs l0 = Inr (rs, l)"
    and "Mapping.lookup (items l) k = Some e"
  shows "\<exists>l'. Get k now l = ((Some (val (elems l ! e)), True), l') \<and>
           Mapping.lookup (items l') k = Some e \<and>
           queue l' = e # remove1 e (queue l) \<and>
           key (elems l' ! e) = k \<and>
           val (elems l' ! e) = val (elems l ! e) \<and>
           expiresAt (elems l' ! e) =
             (if ttl l > 0 then now + ttl l else expiresAt (elems l ! e)) \<and>
           (ttl l > 0 \<longrightarrow> \<not> expired now (elems l' ! e))"
proof -
  from reach_inv [OF assms(1,2)] have "inv l" by simp
  then have c: "consistent l" by (simp add: inv_def)
  from consistent_lookup [OF c assms(3)]
  have e: "e \<in> set (queue l)" "e < length (elems l)" "key (elems l ! e) = k" .
  show ?thesis
    using e assms(3)
    by (simp add: Get_present [OF assms(3)] MoveToFront_def expired_def)
qed

theorem Get_revives_expired_entry_witness:
  "New 2 [WithTTL 10 2] =
     Inr (\<lparr>cap = 2, ttl = 10, cancel = Some 0, items = Mapping.empty, queue = [], elems = [],
           sweepers = [\<lparr>captured_ticks = 2, ctx_done = False, stage = Spawned\<rparr>]\<rparr> :: nat LRUCache) \<and>
   run [Call (CallSet ''a'' 1) 0]
     (\<lparr>cap = 2, ttl = 10, cancel = Some 0, items = Mapping.empty, queue = [], elems = [],
       sweepers = [\<lparr>captured_ticks = 2, ctx_done = False, stage = Spawned\<rparr>]\<rparr> :: nat LRUCache) =
     Inr ([SetResult False],
          \<lparr>cap = 2, ttl = 10, cancel = Some 0, items = Mapping.update ''a'' 0 Mapping.empty,
           queue = [0], elems = [\<lparr>key = ''a'', val = 1, expiresAt = 10\<rparr>],
           sweepers = [\<lparr>captured_ticks = 2, ctx_done = False, stage = Spawned\<rparr>]\<rparr>) \<and>
   expired 50 \<lparr>key = ''a'', val = 1::nat, expiresAt = 10\<rparr> \<and>
   Get ''a'' 50
     (\<lparr>cap = 2, ttl = 10, cancel = Some 0, items = Mapping.update ''a'' 0 Mapping.empty,
       queue = [0], elems = [\<lparr>key = ''a'', val = 1, expiresAt = 10\<rparr>],
       sweepers = [\<lparr>captured_ticks = 2, ctx_done = False, stage = Spawned\<rparr>]\<rparr> :: nat LRUCache) =
     ((Some 1, True),
      \<lparr>cap = 2, ttl = 10, cancel = Some 0, items = Mapping.update ''a'' 0 Mapping.empty,
       queue = [0], elems = [\<lparr>key = ''a'', val = 1, expiresAt = 60\<rparr>],
       sweepers = [\<lparr>captured_ticks = 2, ctx_done = False, stage = Spawned\<rparr>]\<rparr>)"
proof -
  let ?init = "\<lparr>cap = 2, ttl = 10, cancel = Some 0, items = Mapping.empty, queue = [], elems = [],
              sweepers = [\<lparr>captured_ticks = 2, ctx_done = False, stage = Spawned\<rparr>]\<rparr> :: nat LRUCache"
  let ?l = "\<lparr>cap = 2, ttl = 10, cancel = Some 0, items = Mapping.update ''a'' 0 Mapping.empty,
             queue = [0], elems = [\<lparr>key = ''a'', val = 1, expiresAt = 10\<rparr>],
             sweepers = [\<lparr>captured_ticks = 2, ctx_done = False, stage = Spawned\<rparr>]\<rparr> :: nat LRUCache"
  have n: "New 2 [WithTTL 10 2] = Inr ?init"
    by (simp add: New_def new_cache_def)
  have r: "run [Call (CallSet ''a'' 1) 0] ?init = Inr ([SetResult False], ?l)"
    by (simp add: Set_def PushFront_def)
  have p: "Mapping.lookup (items ?l) ''a'' = Some 0" by simp
  from Get_revives_expired_entry [OF n r p, of 50]
  obtain l' where g: "Get ''a'' 50 ?l = ((Some (val (elems ?l ! 0)), True), l')"
    by blast
  have x: "expired 50 \<lparr>key = ''a'', val = 1::nat, expiresAt = 10\<rparr>"
    by (simp add: expired_def)
  have "Get ''a'' 50 ?l =
     ((Some 1, True),
      \<lparr>cap = 2, ttl = 10, cancel = Some 0, items = Mapping.update ''a'' 0 Mapping.empty,
       queue = [0], elems = [\<lparr>key = ''a'', val = 1, expiresAt = 60\<rparr>],
       sweepers = [\<lparr>captured_ticks = 2, ctx_done = False, stage = Spawned\<rparr>]\<rparr>)"
    using g by (simp add: Get_def MoveToFront_def)
  with n r x show ?thesis by (intro conjI)
qed

section \<open>The sweep\<close>

lemma lookup_fold_delete:
  "Mapping.lookup (fold (\<lambda>e. Mapping.delete (f e)) es m) k =
     (if k \<in> f ` set es then None else Mapping.lookup m k)"
  by (induction es arbitrary: m) (auto simp: lookup_delete_if)

lemma rev_dropWhile_rev_append:
  "rev (dropWhile P (rev q)) @ rev (takeWhile P (rev q)) = q"
  by (metis rev_append rev_rev_ident takeWhile_dropWhile_id)

lemma last_rev_dropWhile:
  "rev (dropWhile P (rev q)) \<noteq> [] \<Longrightarrow> \<not> P (last (rev (dropWhile P (rev q))))"
  by (simp add: last_rev hd_dropWhile)

text \<open>
  C3. In every state of a constructed cache, \<open>clearExpired\<close> returns, and a tick of a
  running sweeper is \<open>clearExpired\<close>. It cuts the queue in two: the part \<open>gone\<close> at the
  back, all of whose entries have expired, is removed from the queue, and the keys of
  its entries are removed from the hash table; the part in front of it is left as it is,
  expired or not, and if it is not empty then its last entry, where the scan stopped,
  has not expired. No other key of the hash table and no element changes.
\<close>

theorem clearExpired_removes_expired_back_run:
  assumes "New c options = Inr l0" and "run evs l0 = Inr (rs, l)"
  shows "\<exists>l' gone.
           clearExpired now l = Inr l' \<and>
           (i < length (sweepers l) \<and> running (sweepers l ! i) \<longrightarrow> tick i now l = Inr l') \<and>
           queue l = queue l' @ gone \<and>
           (\<forall>e \<in> set gone. expired now (elems l ! e)) \<and>
           (queue l' \<noteq> [] \<longrightarrow> \<not> expired now (elems l ! last (queue l'))) \<and>
           (\<forall>k. Mapping.lookup (items l') k =
                  (if k \<in> (\<lambda>e. key (elems l ! e)) ` set gone then None
                   else Mapping.lookup (items l) k)) \<and>
           elems l' = elems l"
proof -
  from reach_inv [OF assms] have "inv l" by simp
  then have d: "distinct (queue l)" by (simp add: inv_def consistent_def)
  let ?P = "\<lambda>e. expired now (elems l ! e)"
  let ?gone = "takeWhile ?P (rev (queue l))"
  let ?keep = "rev (dropWhile ?P (rev (queue l)))"
  let ?l' = "l\<lparr>queue := ?keep,
               items := fold (\<lambda>e. Mapping.delete (key (elems l ! e))) ?gone (items l)\<rparr>"
  have ce: "clearExpired now l = Inr ?l'" by (rule clearExpired_eq [OF d])
  have "tick i now l = Inr ?l'" if "i < length (sweepers l) \<and> running (sweepers l ! i)"
    using that ce by (simp add: tick_def)
  moreover have "queue l = queue ?l' @ rev ?gone"
    by (simp add: rev_dropWhile_rev_append)
  moreover have "\<forall>e \<in> set (rev ?gone). expired now (elems l ! e)"
    by (auto dest: set_takeWhileD)
  moreover have "queue ?l' \<noteq> [] \<longrightarrow> \<not> expired now (elems l ! last (queue ?l'))"
    using last_rev_dropWhile [of ?P "queue l"] by simp
  moreover have "\<forall>k. Mapping.lookup (items ?l') k =
                  (if k \<in> (\<lambda>e. key (elems l ! e)) ` set (rev ?gone) then None
                   else Mapping.lookup (items l) k)"
    by (simp add: lookup_fold_delete)
  moreover have "elems ?l' = elems l" by simp
  ultimately show ?thesis using ce by blast
qed

theorem clearExpired_removes_expired_back_run_witness:
  "New 3 [WithTTL 10 2] =
     Inr (\<lparr>cap = 3, ttl = 10, cancel = Some 0, items = Mapping.empty, queue = [], elems = [],
       sweepers = [\<lparr>captured_ticks = 2, ctx_done = False, stage = Spawned\<rparr>]\<rparr> :: nat LRUCache) \<and>
   run [Start 0, Call (CallSet ''a'' 1) 0, Call (CallSet ''b'' 2) 100, Call (CallSet ''c'' 3) 1]
     (\<lparr>cap = 3, ttl = 10, cancel = Some 0, items = Mapping.empty, queue = [], elems = [],
       sweepers = [\<lparr>captured_ticks = 2, ctx_done = False, stage = Spawned\<rparr>]\<rparr> :: nat LRUCache) =
     Inr ([SetResult False, SetResult False, SetResult False],
     \<lparr>cap = 3, ttl = 10, cancel = Some 0,
      items = Mapping.update ''c'' 2 (Mapping.update ''b'' 1 (Mapping.update ''a'' 0 Mapping.empty)),
      queue = [2, 1, 0],
      elems = [\<lparr>key = ''a'', val = 1, expiresAt = 10\<rparr>,
               \<lparr>key = ''b'', val = 2, expiresAt = 110\<rparr>,
               \<lparr>key = ''c'', val = 3, expiresAt = 11\<rparr>],
      sweepers = [\<lparr>captured_ticks = 2, ctx_done = False, stage = Looping 5\<rparr>]\<rparr>) \<and>
   clearExpired 50
     (\<lparr>cap = 3, ttl = 10, cancel = Some 0,
      items = Mapping.update ''c'' 2 (Mapping.update ''b'' 1 (Mapping.update ''a'' 0 Mapping.empty)),
      queue = [2, 1, 0],
      elems = [\<lparr>key = ''a'', val = 1, expiresAt = 10\<rparr>,
               \<lparr>key = ''b'', val = 2, expiresAt = 110\<rparr>,
               \<lparr>key = ''c'', val = 3, expiresAt = 11\<rparr>],
      sweepers = [\<lparr>captured_ticks = 2, ctx_done = False, stage = Looping 5\<rparr>]\<rparr> :: nat LRUCache) =
     Inr \<lparr>cap = 3, ttl = 10, cancel = Some 0,
      items = Mapping.delete ''a''
        (Mapping.update ''c'' 2 (Mapping.update ''b'' 1 (Mapping.update ''a'' 0 Mapping.empty))),
      queue = [2, 1],
      elems = [\<lparr>key = ''a'', val = 1, expiresAt = 10\<rparr>,
               \<lparr>key = ''b'', val = 2, expiresAt = 110\<rparr>,
               \<lparr>key = ''c'', val = 3, expiresAt = 11\<rparr>],
      sweepers = [\<lparr>captured_ticks = 2, ctx_done = False, stage = Looping 5\<rparr>]\<rparr> \<and>
   tick 0 50
     (\<lparr>cap = 3, ttl = 10, cancel = Some 0,
      items = Mapping.update ''c'' 2 (Mapping.update ''b'' 1 (Mapping.update ''a'' 0 Mapping.empty)),
      queue = [2, 1, 0],
      elems = [\<lparr>key = ''a'', val = 1, expiresAt = 10\<rparr>,
               \<lparr>key = ''b'', val = 2, expiresAt = 110\<rparr>,
               \<lparr>key = ''c'', val = 3, expiresAt = 11\<rparr>],
      sweepers = [\<lparr>captured_ticks = 2, ctx_done = False, stage = Looping 5\<rparr>]\<rparr> :: nat LRUCache) =
     Inr \<lparr>cap = 3, ttl = 10, cancel = Some 0,
      items = Mapping.delete ''a''
        (Mapping.update ''c'' 2 (Mapping.update ''b'' 1 (Mapping.update ''a'' 0 Mapping.empty))),
      queue = [2, 1],
      elems = [\<lparr>key = ''a'', val = 1, expiresAt = 10\<rparr>,
               \<lparr>key = ''b'', val = 2, expiresAt = 110\<rparr>,
               \<lparr>key = ''c'', val = 3, expiresAt = 11\<rparr>],
      sweepers = [\<lparr>captured_ticks = 2, ctx_done = False, stage = Looping 5\<rparr>]\<rparr> \<and>
   expired 50 \<lparr>key = ''c'', val = 3::nat, expiresAt = 11\<rparr>"
proof -
  let ?init = "\<lparr>cap = 3, ttl = 10, cancel = Some 0, items = Mapping.empty, queue = [], elems = [],
       sweepers = [\<lparr>captured_ticks = 2, ctx_done = False, stage = Spawned\<rparr>]\<rparr> :: nat LRUCache"
  let ?l = "\<lparr>cap = 3, ttl = 10, cancel = Some 0,
      items = Mapping.update ''c'' 2 (Mapping.update ''b'' 1 (Mapping.update ''a'' 0 Mapping.empty)),
      queue = [2, 1, 0],
      elems = [\<lparr>key = ''a'', val = 1, expiresAt = 10\<rparr>,
               \<lparr>key = ''b'', val = 2, expiresAt = 110\<rparr>,
               \<lparr>key = ''c'', val = 3, expiresAt = 11\<rparr>],
      sweepers = [\<lparr>captured_ticks = 2, ctx_done = False, stage = Looping 5\<rparr>]\<rparr> :: nat LRUCache"
  let ?l' = "\<lparr>cap = 3, ttl = 10, cancel = Some 0,
      items = Mapping.delete ''a''
        (Mapping.update ''c'' 2 (Mapping.update ''b'' 1 (Mapping.update ''a'' 0 Mapping.empty))),
      queue = [2, 1],
      elems = [\<lparr>key = ''a'', val = 1, expiresAt = 10\<rparr>,
               \<lparr>key = ''b'', val = 2, expiresAt = 110\<rparr>,
               \<lparr>key = ''c'', val = 3, expiresAt = 11\<rparr>],
      sweepers = [\<lparr>captured_ticks = 2, ctx_done = False, stage = Looping 5\<rparr>]\<rparr> :: nat LRUCache"
  have n: "New 3 [WithTTL 10 2] = Inr ?init"
    by (simp add: New_def new_cache_def)
  have r: "run [Start 0, Call (CallSet ''a'' 1) 0, Call (CallSet ''b'' 2) 100, Call (CallSet ''c'' 3) 1] ?init =
             Inr ([SetResult False, SetResult False, SetResult False], ?l)"
    by (simp add: start_def NewTicker_def quo_def Set_def PushFront_def Mapping.size_def
        numeral_2_eq_2)
  have run0: "0 < length (sweepers ?l) \<and> running (sweepers ?l ! 0)"
    by (simp add: running_def)
  from clearExpired_removes_expired_back_run [OF n r, where now = 50 and i = 0]
  obtain l' where c: "clearExpired 50 ?l = Inr l'" and t: "tick 0 50 ?l = Inr l'"
    using run0 by blast
  have "clearExpired 50 ?l = Inr ?l'"
    by (simp add: clearExpired_def deleteItem_def Remove_def)
  with c t have "clearExpired 50 ?l = Inr ?l'" "tick 0 50 ?l = Inr ?l'" by simp_all
  moreover have "expired 50 \<lparr>key = ''c'', val = 3::nat, expiresAt = 11\<rparr>"
    by (simp add: expired_def)
  ultimately show ?thesis using n r by (intro conjI)
qed

section \<open>The order of expirations in the queue\<close>

lemma expiry_ordered_mono:
  "expiry_ordered t l \<Longrightarrow> t \<le> t' \<Longrightarrow> expiry_ordered t' l"
  unfolding expiry_ordered_def by (auto split: if_splits)

lemma sorted_wrt_remove1:
  "sorted_wrt P q \<Longrightarrow> sorted_wrt P (remove1 x q)"
  by (induction q) (auto dest: notin_set_remove1)

lemma expiry_ordered_front:
  assumes o: "expiry_ordered t l" and tn: "t \<le> now" and d: "distinct (queue l)"
    and q: "queue l' = e # remove1 x (queue l)"
    and same: "\<And>a. a \<in> set (remove1 x (queue l)) \<Longrightarrow> elems l' ! a = elems l ! a"
    and e: "expiresAt (elems l' ! e) = (if ttl l > 0 then now + ttl l else 0)"
    and t: "ttl l' = ttl l"
  shows "expiry_ordered now l'"
proof -
  let ?f = "\<lambda>a. expiresAt (elems l ! a)"
  let ?g = "\<lambda>a. expiresAt (elems l' ! a)"
  let ?q = "remove1 x (queue l)"
  have sub: "\<And>a. a \<in> set ?q \<Longrightarrow> a \<in> set (queue l)" using set_remove1_subset [of x "queue l"] by blast
  have s: "sorted_wrt (\<lambda>a b. ?f b \<le> ?f a) ?q"
    using o by (simp add: expiry_ordered_def sorted_wrt_remove1)
  have s': "sorted_wrt (\<lambda>a b. ?g b \<le> ?g a) ?q"
    by (rule sorted_wrt_mono_rel [OF _ s]) (simp add: same)
  have bound: "\<And>a. a \<in> set ?q \<Longrightarrow>
      (if ttl l > 0 then ?f a \<le> t + ttl l else ?f a = 0)"
    using o sub unfolding expiry_ordered_def by blast
  have le: "?g a \<le> ?g e" if "a \<in> set ?q" for a
    using bound [OF that] tn that by (auto simp: same e split: if_splits)
  have b': "if ttl l > 0 then ?g a \<le> now + ttl l else ?g a = 0" if "a \<in> set ?q" for a
    using bound [OF that] tn that by (auto simp: same split: if_splits)
  show ?thesis
    unfolding expiry_ordered_def q t
    using s' le b' e by (auto split: if_splits)
qed

lemma expiry_ordered_Set:
  assumes i: "inv l" and o: "expiry_ordered t l" and tn: "t \<le> now"
    and s: "Set k v now l = Inr (b, l')"
  shows "expiry_ordered now l'"
proof -
  from i have c: "consistent l" and bd: "bounded l" by (simp_all add: inv_def)
  have d: "distinct (queue l)" using c by (simp add: consistent_def)
  have lt: "\<And>a. a \<in> set (queue l) \<Longrightarrow> a < length (elems l)"
    using c by (simp add: consistent_def)
  have sz: "Mapping.size (items l) = length (queue l)" by (rule size_consistent [OF c])
  let ?it = "\<lparr>key = k, val = v, expiresAt = (if ttl l > 0 then now + ttl l else 0)\<rparr>"
  let ?n = "length (elems l)"
  have fresh: "?n \<notin> set (queue l)" using lt by blast
  show ?thesis
  proof (cases "Mapping.lookup (items l) k")
    case (Some e)
    from consistent_lookup [OF c Some] have e: "e \<in> set (queue l)" "e < length (elems l)"
      by simp_all
    have l': "l' = l\<lparr>elems := (elems l)[e := ?it], queue := MoveToFront e (queue l)\<rparr>"
      using s by (simp add: Set_present [OF Some])
    show ?thesis
    proof (rule expiry_ordered_front [OF o tn d, where e = e and x = e])
      show "queue l' = e # remove1 e (queue l)" using e by (simp add: l' MoveToFront_def)
      show "elems l' ! a = elems l ! a" if "a \<in> set (remove1 e (queue l))" for a
        using that d by (auto simp: l')
      show "expiresAt (elems l' ! e) = (if ttl l > 0 then now + ttl l else 0)"
        using e by (simp add: l')
      show "ttl l' = ttl l" by (simp add: l')
    qed
  next
    case None
    show ?thesis
    proof (cases "int (Mapping.size (items l)) = cap l")
      case False
      have l': "l' = l\<lparr>elems := elems l @ [?it], queue := ?n # queue l,
                   items := Mapping.update k ?n (items l)\<rparr>"
        using s by (simp add: Set_absent_room [OF None False])
      show ?thesis
      proof (rule expiry_ordered_front [OF o tn d, where e = ?n and x = ?n])
        show "queue l' = ?n # remove1 ?n (queue l)"
          using fresh by (simp add: l' remove1_idem)
        show "elems l' ! a = elems l ! a" if "a \<in> set (remove1 ?n (queue l))" for a
          using that fresh lt [of a] by (simp add: l' remove1_idem nth_append)
        show "expiresAt (elems l' ! ?n) = (if ttl l > 0 then now + ttl l else 0)"
          by (simp add: l')
        show "ttl l' = ttl l" by (simp add: l')
      qed
    next
      case True
      then have ne: "queue l \<noteq> []" using bd sz by (auto simp: bounded_def)
      have l': "l' = l\<lparr>elems := elems l @ [?it],
                   queue := ?n # remove1 (last (queue l)) (queue l),
                   items := Mapping.update k ?n
                     (Mapping.delete (key (elems l ! last (queue l))) (items l))\<rparr>"
        using s by (simp add: Set_absent_full [OF None True ne])
      show ?thesis
      proof (rule expiry_ordered_front [OF o tn d, where e = ?n and x = "last (queue l)"])
        show "queue l' = ?n # remove1 (last (queue l)) (queue l)" by (simp add: l')
        show "elems l' ! a = elems l ! a" if "a \<in> set (remove1 (last (queue l)) (queue l))" for a
        proof -
          have "a \<in> set (queue l)" using that set_remove1_subset by fastforce
          then show ?thesis using lt [of a] by (simp add: l' nth_append)
        qed
        show "expiresAt (elems l' ! ?n) = (if ttl l > 0 then now + ttl l else 0)"
          by (simp add: l')
        show "ttl l' = ttl l" by (simp add: l')
      qed
    qed
  qed
qed

lemma expiry_ordered_Get:
  assumes i: "inv l" and o: "expiry_ordered t l" and tn: "t \<le> now"
    and g: "Get k now l = (r, l')"
  shows "expiry_ordered now l'"
proof (cases "Mapping.lookup (items l) k")
  case None
  then have "l' = l" using g by (simp add: Get_absent)
  then show ?thesis using expiry_ordered_mono [OF o tn] by simp
next
  case (Some e)
  from i have c: "consistent l" by (simp add: inv_def)
  have d: "distinct (queue l)" using c by (simp add: consistent_def)
  from consistent_lookup [OF c Some] have e: "e \<in> set (queue l)" "e < length (elems l)"
    by simp_all
  let ?it = "if ttl l > 0 then (elems l ! e)\<lparr>expiresAt := now + ttl l\<rparr> else elems l ! e"
  have l': "l' = l\<lparr>elems := (elems l)[e := ?it], queue := MoveToFront e (queue l)\<rparr>"
    using g by (simp add: Get_present [OF Some])
  have z: "\<not> ttl l > 0 \<Longrightarrow> expiresAt (elems l ! e) = 0"
    using o e(1) unfolding expiry_ordered_def by (auto split: if_splits)
  show ?thesis
  proof (rule expiry_ordered_front [OF o tn d, where e = e and x = e])
    show "queue l' = e # remove1 e (queue l)" using e by (simp add: l' MoveToFront_def)
    show "elems l' ! a = elems l ! a" if "a \<in> set (remove1 e (queue l))" for a
      using that d by (auto simp: l')
    show "expiresAt (elems l' ! e) = (if ttl l > 0 then now + ttl l else 0)"
      using e z by (simp add: l')
    show "ttl l' = ttl l" by (simp add: l')
  qed
qed

lemma expiry_ordered_clearExpired:
  assumes d: "distinct (queue l)" and o: "expiry_ordered t l"
    and ce: "clearExpired now l = Inr l'"
  shows "expiry_ordered t l'"
proof -
  let ?P = "\<lambda>e. expired now (elems l ! e)"
  let ?keep = "rev (dropWhile ?P (rev (queue l)))"
  have l': "elems l' = elems l" "ttl l' = ttl l" "queue l' = ?keep"
    using ce unfolding clearExpired_eq [OF d] by auto
  have split: "queue l = ?keep @ rev (takeWhile ?P (rev (queue l)))"
    by (simp add: rev_dropWhile_rev_append)
  have "sorted_wrt (\<lambda>a b. expiresAt (elems l ! b) \<le> expiresAt (elems l ! a)) ?keep"
    using o unfolding expiry_ordered_def by (subst (asm) split) (simp add: sorted_wrt_append)
  moreover have "set ?keep \<subseteq> set (queue l)" by (subst (2) split) simp
  ultimately show ?thesis
    using o unfolding expiry_ordered_def l' by blast
qed

lemma expiry_ordered_tick:
  assumes d: "distinct (queue l)" and o: "expiry_ordered t l" and ti: "tick j now l = Inr l'"
  shows "expiry_ordered t l'"
proof (cases "j < length (sweepers l) \<and> running (sweepers l ! j)")
  case True
  then have "clearExpired now l = Inr l'" using ti by (simp add: tick_def)
  then show ?thesis by (rule expiry_ordered_clearExpired [OF d o])
next
  case False
  then have "l' = l" using ti by (auto simp: tick_def)
  then show ?thesis using o by simp
qed

lemma expiry_ordered_Clear: "expiry_ordered t (Clear l)"
  by (simp add: expiry_ordered_def Clear_eq split: option.splits)

lemma expiry_ordered_cong:
  "queue l' = queue l \<Longrightarrow> elems l' = elems l \<Longrightarrow> ttl l' = ttl l \<Longrightarrow>
   expiry_ordered t l' = expiry_ordered t l"
  by (simp add: expiry_ordered_def)

lemma expiry_ordered_run:
  assumes "inv l" and "expiry_ordered t l" and "sorted (concat (map readings evs))"
    and "\<forall>x \<in> set (concat (map readings evs)). t \<le> x" and "run evs l = Inr (rs, l')"
  shows "\<exists>t'. expiry_ordered t' l'"
  using assms
proof (induction evs arbitrary: l t rs)
  case Nil
  then show ?case by auto
next
  case (Cons ev evs)
  have srt: "sorted (concat (map readings evs))"
    using Cons.prems(3) by (simp add: sorted_append)
  have later: "\<forall>x \<in> set (concat (map readings evs)). t \<le> x"
    using Cons.prems(4) by simp
  show ?case
  proof (cases ev)
    case (Call c now)
    have tn: "t \<le> now" using Cons.prems(4) Call by simp
    have after: "\<forall>x \<in> set (concat (map readings evs)). now \<le> x"
      using Cons.prems(3) Call by simp
    from Call Cons.prems(5) obtain r l1 rs1 where
      p: "perform c now l = Inr (r, l1)" and r: "run evs l1 = Inr (rs1, l')"
      by (auto split: sum.splits prod.splits)
    from perform_inv [OF Cons.prems(1) p] have i1: "inv l1" by simp
    have "expiry_ordered now l1"
    proof (cases c)
      case (CallSet k v)
      with p obtain b where "Set k v now l = Inr (b, l1)" by (auto split: sum.splits)
      from expiry_ordered_Set [OF Cons.prems(1,2) tn this] show ?thesis .
    next
      case (CallGet k)
      with p obtain x where "Get k now l = (x, l1)" by (cases "Get k now l") auto
      from expiry_ordered_Get [OF Cons.prems(1,2) tn this] show ?thesis .
    next
      case CallClear
      with p show ?thesis by (auto simp: expiry_ordered_Clear)
    qed
    from Cons.IH [OF i1 this srt after r] show ?thesis .
  next
    case (Tick j now)
    have tn: "t \<le> now" using Cons.prems(4) Tick by simp
    have after: "\<forall>x \<in> set (concat (map readings evs)). now \<le> x"
      using Cons.prems(3) Tick by simp
    from Tick Cons.prems(5) obtain l1 where
      p: "tick j now l = Inr l1" and r: "run evs l1 = Inr (rs, l')"
      by (auto split: sum.splits)
    from tick_inv [OF Cons.prems(1) p] have i1: "inv l1" by simp
    have d: "distinct (queue l)" using Cons.prems(1) by (simp add: inv_def consistent_def)
    have "expiry_ordered now l1"
      by (rule expiry_ordered_mono [OF expiry_ordered_tick [OF d Cons.prems(2) p] tn])
    from Cons.IH [OF i1 this srt after r] show ?thesis .
  next
    case (Start j)
    with Cons.prems(5) obtain l1 where
      p: "start j l = Inr l1" and r: "run evs l1 = Inr (rs, l')"
      by (auto split: sum.splits)
    from start_inv [OF Cons.prems(1) p]
    have i1: "inv l1" and same: "queue l1 = queue l" "elems l1 = elems l" "ttl l1 = ttl l"
      by simp_all
    have "expiry_ordered t l1"
      using Cons.prems(2) expiry_ordered_cong [OF same, of t] by simp
    from Cons.IH [OF i1 this srt later r] show ?thesis .
  next
    case (Stop j)
    with Cons.prems(5) have r: "run evs (stop j l) = Inr (rs, l')" by simp
    from stop_inv [OF Cons.prems(1), of j]
    have i1: "inv (stop j l)" and same: "queue (stop j l) = queue l"
      "elems (stop j l) = elems l" "ttl (stop j l) = ttl l" by simp_all
    have "expiry_ordered t (stop j l)"
      using Cons.prems(2) expiry_ordered_cong [OF same, of t] by simp
    from Cons.IH [OF i1 this srt later r] show ?thesis .
  qed
qed

lemma sorted_entries_iff:
  "sorted (map expiresAt (rev (entries l))) \<longleftrightarrow>
     sorted_wrt (\<lambda>a b. expiresAt (elems l ! b) \<le> expiresAt (elems l ! a)) (queue l)"
  by (simp add: entries_def rev_map [symmetric] sorted_wrt_rev sorted_wrt_map)

text \<open>
  When the clock readings of the events do not decrease along the sequence, as they do
  for callers that run one after another, the expirations do not decrease from the
  back of the queue to the front.
\<close>

lemma expiresAt_sorted_when_readings_ordered:
  assumes "New c options = Inr l0" and "run evs l0 = Inr (rs, l)"
    and "sorted (concat (map readings evs))"
  shows "sorted (map expiresAt (rev (entries l)))"
proof -
  let ?t = "case concat (map readings evs) of [] \<Rightarrow> 0 | x # _ \<Rightarrow> x"
  from New_inv [OF assms(1)] have i: "inv l0" and q: "queue l0 = []" by simp_all
  have o: "expiry_ordered ?t l0" using q by (simp add: expiry_ordered_def)
  have "\<forall>x \<in> set (concat (map readings evs)). ?t \<le> x"
    using assms(3) by (cases "concat (map readings evs)") auto
  from expiry_ordered_run [OF i o assms(3) this assms(2)]
  show ?thesis by (auto simp: sorted_entries_iff expiry_ordered_def)
qed

text \<open>
  C4. The order of the expirations does not hold after every sequence of calls of
  \<open>Set\<close>. \<open>Set\<close> computes \<open>expiresAt\<close> from a clock reading that it takes before it locks
  the mutex, while \<open>Get\<close> takes its reading under the lock. Here, with a TTL of 100, the
  caller that sets \<open>b\<close> reads the clock at 0, the caller that sets \<open>a\<close> reads it at 38
  and takes the lock first, and then the first caller takes it. The expirations from
  the back of the queue to the front are then 138 and 100. A scan at 120 stops at the
  entry at the back, which has not expired, and leaves the expired entry in front of it.
\<close>

theorem Set_with_older_reading_breaks_expiry_order:
  "New 2 [WithTTL 100 2] =
     Inr (\<lparr>cap = 2, ttl = 100, cancel = Some 0, items = Mapping.empty, queue = [], elems = [],
       sweepers = [\<lparr>captured_ticks = 2, ctx_done = False, stage = Spawned\<rparr>]\<rparr> :: nat LRUCache) \<and>
   run [Call (CallSet ''a'' 1) 38, Call (CallSet ''b'' 2) 0]
     (\<lparr>cap = 2, ttl = 100, cancel = Some 0, items = Mapping.empty, queue = [], elems = [],
       sweepers = [\<lparr>captured_ticks = 2, ctx_done = False, stage = Spawned\<rparr>]\<rparr> :: nat LRUCache) =
     Inr ([SetResult False, SetResult False],
     \<lparr>cap = 2, ttl = 100, cancel = Some 0,
      items = Mapping.update ''b'' 1 (Mapping.update ''a'' 0 Mapping.empty),
      queue = [1, 0],
      elems = [\<lparr>key = ''a'', val = 1, expiresAt = 138\<rparr>,
               \<lparr>key = ''b'', val = 2, expiresAt = 100\<rparr>],
      sweepers = [\<lparr>captured_ticks = 2, ctx_done = False, stage = Spawned\<rparr>]\<rparr>) \<and>
   map expiresAt (rev (entries
     (\<lparr>cap = 2, ttl = 100, cancel = Some 0,
      items = Mapping.update ''b'' 1 (Mapping.update ''a'' 0 Mapping.empty),
      queue = [1, 0],
      elems = [\<lparr>key = ''a'', val = 1, expiresAt = 138\<rparr>,
               \<lparr>key = ''b'', val = 2, expiresAt = 100\<rparr>],
      sweepers = [\<lparr>captured_ticks = 2, ctx_done = False, stage = Spawned\<rparr>]\<rparr> :: nat LRUCache))) = [138, 100] \<and>
   \<not> sorted (map expiresAt (rev (entries
     (\<lparr>cap = 2, ttl = 100, cancel = Some 0,
      items = Mapping.update ''b'' 1 (Mapping.update ''a'' 0 Mapping.empty),
      queue = [1, 0],
      elems = [\<lparr>key = ''a'', val = 1, expiresAt = 138\<rparr>,
               \<lparr>key = ''b'', val = 2, expiresAt = 100\<rparr>],
      sweepers = [\<lparr>captured_ticks = 2, ctx_done = False, stage = Spawned\<rparr>]\<rparr> :: nat LRUCache)))) \<and>
   expired 120 \<lparr>key = ''b'', val = 2::nat, expiresAt = 100\<rparr> \<and>
   clearExpired 120
     (\<lparr>cap = 2, ttl = 100, cancel = Some 0,
      items = Mapping.update ''b'' 1 (Mapping.update ''a'' 0 Mapping.empty),
      queue = [1, 0],
      elems = [\<lparr>key = ''a'', val = 1, expiresAt = 138\<rparr>,
               \<lparr>key = ''b'', val = 2, expiresAt = 100\<rparr>],
      sweepers = [\<lparr>captured_ticks = 2, ctx_done = False, stage = Spawned\<rparr>]\<rparr> :: nat LRUCache) =
     Inr \<lparr>cap = 2, ttl = 100, cancel = Some 0,
      items = Mapping.update ''b'' 1 (Mapping.update ''a'' 0 Mapping.empty),
      queue = [1, 0],
      elems = [\<lparr>key = ''a'', val = 1, expiresAt = 138\<rparr>,
               \<lparr>key = ''b'', val = 2, expiresAt = 100\<rparr>],
      sweepers = [\<lparr>captured_ticks = 2, ctx_done = False, stage = Spawned\<rparr>]\<rparr>"
  by (simp add: New_def new_cache_def Set_def PushFront_def Mapping.size_def entries_def
      expired_def clearExpired_def)

section \<open>Sets within the capacity\<close>

lemma Get_value_of:
  "fst (Get k now l) = (value_of l k, k \<in> Mapping.keys (items l))"
  by (cases "Mapping.lookup (items l) k")
     (simp_all add: Get_def value_of_def Let_def keys_dom_lookup domIff)

lemma finite_keys_consistent: "consistent l \<Longrightarrow> finite (Mapping.keys (items l))"
  by (simp add: keys_consistent)

lemma Set_no_eviction:
  assumes i: "inv l" and room: "k \<in> Mapping.keys (items l) \<or> int (Mapping.size (items l)) < cap l"
  shows "\<exists>b l'. Set k v now l = Inr (b, l') \<and>
           Mapping.keys (items l') = insert k (Mapping.keys (items l)) \<and>
           value_of l' = (value_of l)(k \<mapsto> v)"
proof -
  from i have c: "consistent l" by (simp add: inv_def)
  let ?it = "\<lparr>key = k, val = v, expiresAt = (if ttl l > 0 then now + ttl l else 0)\<rparr>"
  show ?thesis
  proof (cases "Mapping.lookup (items l) k")
    case (Some e)
    from consistent_lookup [OF c Some] have e: "e < length (elems l)" by simp
    have k: "k \<in> Mapping.keys (items l)" using Some by (simp add: keys_dom_lookup domI)
    have ke: "key (elems l ! e) = k" using consistent_lookup [OF c Some] by simp
    have "value_of (l\<lparr>elems := (elems l)[e := ?it], queue := MoveToFront e (queue l)\<rparr>) k' =
            ((value_of l)(k \<mapsto> v)) k'" for k'
    proof (cases "k' = k")
      case True
      then show ?thesis using Some e by (simp add: value_of_def)
    next
      case False
      show ?thesis
      proof (cases "Mapping.lookup (items l) k'")
        case None
        then show ?thesis using False by (simp add: value_of_def)
      next
        case (Some e')
        from consistent_lookup [OF c Some] have "key (elems l ! e') = k'" by simp
        with ke False have "e' \<noteq> e" by blast
        then show ?thesis using False Some by (simp add: value_of_def)
      qed
    qed
    then show ?thesis
      using k by (auto simp: Set_present [OF Some] insert_absorb)
  next
    case None
    then have nk: "k \<notin> Mapping.keys (items l)" by (simp add: keys_dom_lookup domIff)
    with room have ne: "int (Mapping.size (items l)) \<noteq> cap l" by auto
    have "value_of (l\<lparr>elems := elems l @ [?it], queue := length (elems l) # queue l,
                     items := Mapping.update k (length (elems l)) (items l)\<rparr>) k' =
            ((value_of l)(k \<mapsto> v)) k'" for k'
    proof (cases "k' = k")
      case True
      then show ?thesis by (simp add: value_of_def)
    next
      case False
      show ?thesis
      proof (cases "Mapping.lookup (items l) k'")
        case None
        then show ?thesis using False by (simp add: value_of_def lookup_update')
      next
        case (Some e')
        from consistent_lookup [OF c Some] have "e' < length (elems l)" by simp
        then show ?thesis using False Some by (simp add: value_of_def lookup_update' nth_append)
      qed
    qed
    then show ?thesis
      by (auto simp: Set_absent_room [OF None ne])
  qed
qed

lemma run_sets_no_eviction:
  assumes "inv l" and "int (card (Mapping.keys (items l) \<union> fst ` set kvs)) \<le> cap l"
  shows "\<exists>rs l'. run (map set_event kvs) l = Inr (rs, l') \<and>
           Mapping.keys (items l') = Mapping.keys (items l) \<union> fst ` set kvs \<and>
           value_of l' = value_of l ++ map_of (rev (map binding kvs))"
  using assms
proof (induction kvs arbitrary: l)
  case Nil
  then show ?case by simp
next
  case (Cons kv kvs)
  obtain k v now where kv: "kv = (k, v, now)" by (cases kv)
  from Cons.prems(1) have c: "consistent l" by (simp add: inv_def)
  have fin: "finite (Mapping.keys (items l))" by (rule finite_keys_consistent [OF c])
  have sz: "int (Mapping.size (items l)) = int (card (Mapping.keys (items l)))"
    using fin by (simp add: Mapping.size_def)
  have all: "Mapping.keys (items l) \<union> fst ` set (kv # kvs) =
               insert k (Mapping.keys (items l)) \<union> fst ` set kvs"
    by (simp add: kv)
  have "card (insert k (Mapping.keys (items l))) \<le>
          card (Mapping.keys (items l) \<union> fst ` set (kv # kvs))"
    unfolding all using fin by (intro card_mono) auto
  with Cons.prems(2) have le: "int (card (insert k (Mapping.keys (items l)))) \<le> cap l"
    by linarith
  have room: "k \<in> Mapping.keys (items l) \<or> int (Mapping.size (items l)) < cap l"
    using le fin by (cases "k \<in> Mapping.keys (items l)") (simp_all add: sz)
  from Set_no_eviction [OF Cons.prems(1) room, of v now] obtain b l1 where
    s: "Set k v now l = Inr (b, l1)" and
    k1: "Mapping.keys (items l1) = insert k (Mapping.keys (items l))" and
    v1: "value_of l1 = (value_of l)(k \<mapsto> v)"
    by blast
  from Set_inv [OF Cons.prems(1) s] have i1: "inv l1" and cap1: "cap l1 = cap l"
    by (simp_all add: unchanged_def)
  have "int (card (Mapping.keys (items l1) \<union> fst ` set kvs)) \<le> cap l1"
    using Cons.prems(2) unfolding all by (simp add: k1 cap1)
  from Cons.IH [OF i1 this] obtain rs l' where
    r: "run (map set_event kvs) l1 = Inr (rs, l')" and
    k': "Mapping.keys (items l') = Mapping.keys (items l1) \<union> fst ` set kvs" and
    v': "value_of l' = value_of l1 ++ map_of (rev (map binding kvs))"
    by blast
  have "run (map set_event (kv # kvs)) l = Inr (SetResult b # rs, l')"
    using s r by (simp add: kv)
  moreover have "Mapping.keys (items l') = Mapping.keys (items l) \<union> fst ` set (kv # kvs)"
    unfolding all by (simp add: k' k1)
  moreover have "value_of l' = value_of l ++ map_of (rev (map binding (kv # kvs)))"
    by (rule ext) (simp add: v' v1 kv map_add_def split: option.splits)
  ultimately show ?case by blast
qed

text \<open>
  C6. On a newly constructed cache of capacity \<open>c\<close>, every sequence of calls of \<open>Set\<close>
  that names at most \<open>c\<close> distinct keys runs to its end, and then the hash table holds
  exactly the keys that were set, the queue has one element for each of them, and \<open>Get\<close>
  on any key returns the value of the last \<open>Set\<close> for that key in the sequence and
  true if the key was set, and nothing and false otherwise. Since every prefix of such a
  sequence is one too, no \<open>Set\<close> of the sequence removes a key.
\<close>

theorem Sets_within_capacity_evict_nothing:
  assumes "New c options = Inr l0" and "int (card (fst ` set kvs)) \<le> c"
  shows "\<exists>rs l. run (map set_event kvs) l0 = Inr (rs, l) \<and>
           Mapping.keys (items l) = fst ` set kvs \<and>
           length (queue l) = card (fst ` set kvs) \<and>
           (\<forall>k now. fst (Get k now l) =
                      (map_of (rev (map binding kvs)) k, k \<in> fst ` set kvs))"
proof -
  from New_inv [OF assms(1)] have i: "inv l0" and c: "cap l0 = c"
    and e: "items l0 = Mapping.empty" by simp_all
  have "int (card (Mapping.keys (items l0) \<union> fst ` set kvs)) \<le> cap l0"
    using assms(2) by (simp add: e c)
  from run_sets_no_eviction [OF i this] obtain rs l where
    r: "run (map set_event kvs) l0 = Inr (rs, l)" and
    k: "Mapping.keys (items l) = fst ` set kvs" and
    v: "value_of l = value_of l0 ++ map_of (rev (map binding kvs))"
    by (auto simp: e)
  have "value_of l0 = Map.empty" by (rule ext) (simp add: value_of_def e)
  with v have v': "value_of l = map_of (rev (map binding kvs))" by simp
  from run_inv [OF i r] have "consistent l" by (simp add: inv_def)
  from size_consistent [OF this] finite_keys_consistent [OF this]
  have "length (queue l) = card (fst ` set kvs)" by (simp add: Mapping.size_def k)
  then show ?thesis using r k by (auto simp: Get_value_of v')
qed

theorem Sets_within_capacity_evict_nothing_witness:
  "New 2 [] = Inr (new_cache 2 :: nat LRUCache) \<and>
   int (card (fst ` set [(''a'', 1::nat, 0::int), (''b'', 2, 0), (''a'', 3, 0)])) \<le> 2 \<and>
   (\<exists>rs l. run (map set_event [(''a'', 1::nat, 0), (''b'', 2, 0), (''a'', 3, 0)])
              (new_cache 2) = Inr (rs, l) \<and>
      Mapping.keys (items l) = {''a'', ''b''} \<and>
      length (queue l) = 2 \<and>
      fst (Get ''a'' 9 l) = (Some 3, True) \<and>
      fst (Get ''b'' 9 l) = (Some 2, True) \<and>
      fst (Get ''c'' 9 l) = (None, False))"
proof -
  let ?kvs = "[(''a'', 1::nat, 0::int), (''b'', 2, 0), (''a'', 3, 0)]"
  have n: "New 2 [] = Inr (new_cache 2 :: nat LRUCache)" by (simp add: New_def)
  have s: "fst ` set ?kvs = {''a'', ''b''}" by auto
  have c: "int (card (fst ` set ?kvs)) \<le> 2" unfolding s by simp
  from Sets_within_capacity_evict_nothing [OF n c] obtain rs l where
    r: "run (map set_event ?kvs) (new_cache 2 :: nat LRUCache) = Inr (rs, l)" and
    k: "Mapping.keys (items l) = fst ` set ?kvs" and
    q: "length (queue l) = card (fst ` set ?kvs)" and
    g: "\<And>k now. fst (Get k now l) = (map_of (rev (map binding ?kvs)) k, k \<in> fst ` set ?kvs)"
    by blast
  have "Mapping.keys (items l) = {''a'', ''b''}" using k by (simp only: s)
  moreover have "length (queue l) = 2" using q unfolding s by simp
  moreover have "fst (Get ''a'' 9 l) = (Some 3, True)" by (simp add: g)
  moreover have "fst (Get ''b'' 9 l) = (Some 2, True)" by (simp add: g)
  moreover have "fst (Get ''c'' 9 l) = (None, False)" by (simp add: g)
  ultimately show ?thesis using n c r by blast
qed

section \<open>The two caches compared\<close>

lemma same_contents_nth:
  assumes "same_contents s l" "e < length (elems l)"
  shows "lc_key (lc_elems s ! e) = key (elems l ! e)" "lc_val (lc_elems s ! e) = val (elems l ! e)"
    "length (lc_elems s) = length (elems l)"
proof -
  from assms(1) have m: "map (\<lambda>i. (lc_key i, lc_val i)) (lc_elems s) = map (\<lambda>i. (key i, val i)) (elems l)"
    by (simp add: same_contents_def)
  then show len: "length (lc_elems s) = length (elems l)" by (metis length_map)
  from m have "map (\<lambda>i. (lc_key i, lc_val i)) (lc_elems s) ! e = map (\<lambda>i. (key i, val i)) (elems l) ! e"
    by simp
  with assms(2) len show "lc_key (lc_elems s ! e) = key (elems l ! e)"
    "lc_val (lc_elems s ! e) = val (elems l ! e)" by simp_all
qed

lemma refines_Set:
  assumes r: "refines s l"
  shows "\<exists>b s' l'. lruCache_Set k v s = Inr (b, s') \<and> Set k v now l = Inr (b, l') \<and> refines s' l'"
proof -
  from r have sc: "same_contents s l" and t: "ttl l = 0" and i: "inv l"
    by (simp_all add: refines_def)
  from i have c: "consistent l" and bd: "bounded l" by (simp_all add: inv_def)
  from sc have f: "lc_cap s = cap l" "lc_items s = items l" "lc_queue s = queue l"
    and m: "map (\<lambda>i. (lc_key i, lc_val i)) (lc_elems s) = map (\<lambda>i. (key i, val i)) (elems l)"
    by (simp_all add: same_contents_def)
  have len: "length (lc_elems s) = length (elems l)" using m by (metis length_map)
  have sz: "Mapping.size (items l) = length (queue l)" by (rule size_consistent [OF c])
  obtain b l' where s: "Set k v now l = Inr (b, l')" by (rule Set_total [OF i])
  from Set_inv [OF i s] have i': "inv l'" and t': "ttl l' = 0"
    using t by (simp_all add: unchanged_def)
  show ?thesis
  proof (cases "Mapping.lookup (items l) k")
    case (Some e)
    from consistent_lookup [OF c Some] have e: "e < length (elems l)" "key (elems l ! e) = k"
      by simp_all
    from same_contents_nth [OF sc e(1)] e(2) have ks: "lc_key (lc_elems s ! e) = k" by simp
    let ?s' = "s\<lparr>lc_elems := (lc_elems s)[e := (lc_elems s ! e)\<lparr>lc_val := v\<rparr>],
                 lc_queue := MoveToFront e (lc_queue s)\<rparr>"
    have 1: "lruCache_Set k v s = Inr (True, ?s')"
      using Some by (simp add: lruCache_Set_def f)
    have 2: "Set k v now l = Inr (True, l\<lparr>elems := (elems l)[e := \<lparr>key = k, val = v, expiresAt = 0\<rparr>],
                         queue := MoveToFront e (queue l)\<rparr>)"
      using t by (simp add: Set_present [OF Some])
    have "same_contents ?s' (l\<lparr>elems := (elems l)[e := \<lparr>key = k, val = v, expiresAt = 0\<rparr>],
                         queue := MoveToFront e (queue l)\<rparr>)"
      using m ks by (simp add: same_contents_def f map_update)
    then show ?thesis using 1 2 s i' t' by (auto simp: refines_def)
  next
    case None
    show ?thesis
    proof (cases "int (Mapping.size (items l)) = cap l")
      case False
      let ?s' = "s\<lparr>lc_elems := lc_elems s @ [\<lparr>lc_key = k, lc_val = v\<rparr>],
                   lc_queue := length (lc_elems s) # lc_queue s,
                   lc_items := Mapping.update k (length (lc_elems s)) (lc_items s)\<rparr>"
      have 1: "lruCache_Set k v s = Inr (False, ?s')"
        using None False by (simp add: lruCache_Set_def f PushFront_def Let_def)
      have "same_contents ?s' (l\<lparr>elems := elems l @ [\<lparr>key = k, val = v,
                                    expiresAt = (if ttl l > 0 then now + ttl l else 0)\<rparr>],
                          queue := length (elems l) # queue l,
                          items := Mapping.update k (length (elems l)) (items l)\<rparr>)"
        using m by (simp add: same_contents_def f len)
      then show ?thesis
        using 1 s i' t' by (auto simp: refines_def Set_absent_room [OF None False])
    next
      case True
      then have ne: "queue l \<noteq> []" using bd sz by (auto simp: bounded_def)
      then have "last (queue l) < length (elems l)" using c by (simp add: consistent_def)
      from same_contents_nth(1) [OF sc this]
      have kl: "lc_key (lc_elems s ! last (queue l)) = key (elems l ! last (queue l))" .
      let ?s' = "s\<lparr>lc_elems := lc_elems s @ [\<lparr>lc_key = k, lc_val = v\<rparr>],
                   lc_queue := length (lc_elems s) # remove1 (last (queue l)) (queue l),
                   lc_items := Mapping.update k (length (lc_elems s))
                     (Mapping.delete (key (elems l ! last (queue l))) (items l))\<rparr>"
      have 1: "lruCache_Set k v s = Inr (False, ?s')"
        using None True ne kl
        by (simp add: lruCache_Set_def f PushFront_def Let_def Back_def Remove_def)
      have "same_contents ?s' (l\<lparr>elems := elems l @ [\<lparr>key = k, val = v,
                                    expiresAt = (if ttl l > 0 then now + ttl l else 0)\<rparr>],
                          queue := length (elems l) # remove1 (last (queue l)) (queue l),
                          items := Mapping.update k (length (elems l))
                             (Mapping.delete (key (elems l ! last (queue l))) (items l))\<rparr>)"
        using m by (simp add: same_contents_def f len)
      then show ?thesis
        using 1 s i' t' by (auto simp: refines_def Set_absent_full [OF None True ne])
    qed
  qed
qed

lemma refines_Get:
  assumes r: "refines s l"
  shows "\<exists>x s' l'. lruCache_Get k s = (x, s') \<and> Get k now l = (x, l') \<and> refines s' l'"
proof -
  from r have sc: "same_contents s l" and t: "ttl l = 0" and i: "inv l"
    by (simp_all add: refines_def)
  from i have c: "consistent l" by (simp add: inv_def)
  from sc have f: "lc_cap s = cap l" "lc_items s = items l" "lc_queue s = queue l"
    and m: "map (\<lambda>i. (lc_key i, lc_val i)) (lc_elems s) = map (\<lambda>i. (key i, val i)) (elems l)"
    by (simp_all add: same_contents_def)
  show ?thesis
  proof (cases "Mapping.lookup (items l) k")
    case None
    then show ?thesis using r by (auto simp: lruCache_Get_def Get_absent f)
  next
    case (Some e)
    from consistent_lookup [OF c Some] have e: "e < length (elems l)" by simp
    let ?l' = "l\<lparr>elems := (elems l)[e := elems l ! e], queue := MoveToFront e (queue l)\<rparr>"
    have g: "Get k now l = ((Some (val (elems l ! e)), True), ?l')"
      using t by (simp add: Get_present [OF Some])
    from Get_inv [OF i g] have i': "inv ?l'" by simp
    have "same_contents (s\<lparr>lc_queue := MoveToFront e (lc_queue s)\<rparr>) ?l'"
      using m by (simp add: same_contents_def f)
    then show ?thesis
      using Some same_contents_nth(2) [OF sc e] g i' t
      by (auto simp: lruCache_Get_def f refines_def)
  qed
qed

lemma refines_Clear:
  assumes r: "refines s l"
  shows "refines (lruCache_Clear s) (Clear l)"
proof -
  from r have i: "inv l" by (simp add: refines_def)
  from Clear_inv [OF i] have "inv (Clear l)" by simp
  moreover have "ttl (Clear l) = 0"
    using r by (simp add: refines_def Clear_eq split: option.splits)
  moreover have "same_contents (lruCache_Clear s) (Clear l)"
    using r by (simp add: refines_def same_contents_def lruCache_Clear_def Clear_eq split: option.splits)
  ultimately show ?thesis by (simp add: refines_def)
qed

lemma refines_perform:
  assumes r: "refines s l"
  shows "\<exists>x s' l'. lruCache_perform c s = Inr (x, s') \<and> perform c now l = Inr (x, l') \<and>
           refines s' l'"
proof (cases c)
  case (CallSet k v)
  from refines_Set [OF r, of k v now] show ?thesis using CallSet by auto
next
  case (CallGet k)
  from refines_Get [OF r, of k now] obtain x s' l' where
    "lruCache_Get k s = (x, s')" "Get k now l = (x, l')" "refines s' l'" by blast
  then show ?thesis using CallGet by (cases x) auto
next
  case CallClear
  then show ?thesis using refines_Clear [OF r] by simp
qed

lemma refines_run:
  assumes "refines s l"
  shows "\<exists>rs s' l'. lruCache_run (map fst tcs) s = Inr (rs, s') \<and>
           run (map stamp tcs) l = Inr (rs, l') \<and> refines s' l'"
  using assms
proof (induction tcs arbitrary: s l)
  case Nil
  then show ?case by simp
next
  case (Cons tc tcs)
  obtain c now where tc: "tc = (c, now)" by (cases tc)
  from refines_perform [OF Cons.prems, of c now] obtain x s1 l1 where
    p: "lruCache_perform c s = Inr (x, s1)" "perform c now l = Inr (x, l1)" and r1: "refines s1 l1"
    by blast
  from Cons.IH [OF r1] obtain rs s' l' where
    "lruCache_run (map fst tcs) s1 = Inr (rs, s')" "run (map stamp tcs) l1 = Inr (rs, l')"
    "refines s' l'" by blast
  then show ?case using p tc by simp
qed

text \<open>
  C10. The constructors of the two packages fail on the same capacities with the same
  error. When they succeed, with no option given to the TTL-capable one, every
  sequence of calls of \<open>Set\<close>, \<open>Get\<close> and \<open>Clear\<close>, whatever the clock reads at each call,
  runs to its end on both caches, returns the same results call by call, and leaves the
  two caches with the same hash table, the same queue and the same key and value in
  every element. Every prefix of a sequence is a sequence, so this holds after each call.
\<close>

theorem TTL_disabled_cache_refines_lruCache:
  fixes tcs :: "('v call \<times> int) list"
  shows "if c \<le> 0
         then lruCache_New c = (Inl CapMustBePositive :: error + 'v lruCache_LRUCache) \<and>
              New c [] = (Inl CapMustBePositive :: error + 'v LRUCache)
         else \<exists>s0 l0 rs s l.
                lruCache_New c = Inr s0 \<and> New c [] = Inr l0 \<and>
                lruCache_run (map fst tcs) s0 = Inr (rs, s) \<and>
                run (map stamp tcs) l0 = Inr (rs, l) \<and>
                same_contents s l"
proof (cases "c \<le> 0")
  case True
  then show ?thesis by (simp add: lruCache_New_def New_def)
next
  case False
  let ?s0 = "\<lparr>lc_cap = c, lc_items = Mapping.empty, lc_queue = [], lc_elems = []\<rparr>
               :: 'v lruCache_LRUCache"
  have n: "New c [] = Inr (new_cache c :: 'v LRUCache)" using False by (simp add: New_def)
  from New_inv [OF n] have "inv (new_cache c :: 'v LRUCache)" by simp
  then have "refines ?s0 (new_cache c)"
    by (simp add: refines_def same_contents_def new_cache_def)
  from refines_run [OF this, of tcs] show ?thesis
    using False n by (auto simp: lruCache_New_def refines_def)
qed

theorem TTL_disabled_cache_refines_lruCache_witness:
  "\<not> (2::int) \<le> 0 \<and>
   lruCache_New 2 =
     Inr (\<lparr>lc_cap = 2, lc_items = Mapping.empty, lc_queue = [], lc_elems = []\<rparr>
            :: nat lruCache_LRUCache) \<and>
   New 2 [] = Inr (new_cache 2 :: nat LRUCache) \<and>
   (\<exists>s l.
      lruCache_run (map fst
       [(CallSet ''a'' 1, 0), (CallSet ''b'' 2, 1), (CallGet ''a'', 2), (CallSet ''c'' 3, 3),
        (CallGet ''b'', 4)])
        (\<lparr>lc_cap = 2, lc_items = Mapping.empty, lc_queue = [], lc_elems = []\<rparr>
           :: nat lruCache_LRUCache) =
        Inr ([SetResult False, SetResult False, GetResult (Some 1) True, SetResult False,
        GetResult None False], s) \<and>
      run (map stamp
       [(CallSet ''a'' 1, 0), (CallSet ''b'' 2, 1), (CallGet ''a'', 2), (CallSet ''c'' 3, 3),
        (CallGet ''b'', 4)])
        (new_cache 2 :: nat LRUCache) =
        Inr ([SetResult False, SetResult False, GetResult (Some 1) True, SetResult False,
        GetResult None False], l) \<and>
      same_contents s l \<and> queue l = [2, 0])"
proof -
  let ?tcs = "[(CallSet ''a'' 1, 0), (CallSet ''b'' 2, 1), (CallGet ''a'', 2), (CallSet ''c'' 3, 3),
        (CallGet ''b'', 4)] :: (nat call \<times> int) list"
  let ?rs = "[SetResult False, SetResult False, GetResult (Some 1) True, SetResult False,
        GetResult None False] :: nat result list"
  let ?s0 = "\<lparr>lc_cap = 2, lc_items = Mapping.empty, lc_queue = [], lc_elems = []\<rparr>
               :: nat lruCache_LRUCache"
  have ns: "lruCache_New 2 = Inr ?s0" by (simp add: lruCache_New_def)
  have nl: "New 2 [] = Inr (new_cache 2 :: nat LRUCache)" by (simp add: New_def)
  from TTL_disabled_cache_refines_lruCache [of 2 ?tcs] ns nl
  obtain rs s l where
    a: "lruCache_run (map fst ?tcs) ?s0 = Inr (rs, s)" and
    b: "run (map stamp ?tcs) (new_cache 2) = Inr (rs, l)" and
    c: "same_contents s l"
    by auto
  have "\<exists>s'. lruCache_run (map fst ?tcs) ?s0 = Inr (?rs, s') \<and> lc_queue s' = [2, 0]"
    by (simp add: lruCache_Set_def lruCache_Get_def PushFront_def MoveToFront_def Back_def
        Remove_def Mapping.size_def)
  with a have "rs = ?rs" "lc_queue s = [2, 0]" by auto
  moreover from c have "queue l = lc_queue s" by (simp add: same_contents_def)
  ultimately show ?thesis using a b c ns nl by auto
qed


section \<open>Clear\<close>

text \<open>
  What \<open>Clear\<close> does at once, in every state of a constructed cache: the hash table and
  the queue are empty, the TTL is off, and the context that the cancel function belongs
  to is cancelled.
\<close>

lemma Clear_effect:
  assumes "New c options = Inr l0" and "run evs l0 = Inr (rs, l)"
  shows "items (Clear l) = Mapping.empty \<and> queue (Clear l) = [] \<and> ttl (Clear l) = 0 \<and>
         (\<forall>i. cancel l = Some i \<longrightarrow>
            i < length (sweepers (Clear l)) \<and> ctx_done (sweepers (Clear l) ! i))"
proof -
  from reach_inv [OF assms] have "cancel_ok l" by (simp add: inv_def)
  then show ?thesis
    by (cases "cancel l") (auto simp: Clear_eq cancel_ok_def)
qed

text \<open>
  With two valid TTL options the second overwrites the cancel function of the first, so
  that \<open>Clear\<close> cancels the second sweeper only. The first one still ticks, and since
  entries set after \<open>Clear\<close> carry the zero time, its next tick removes them.
\<close>

lemma Clear_cancels_last_sweeper_only:
  "New 2 [WithTTL 10 2, WithTTL 10 2] =
     Inr (\<lparr>cap = 2, ttl = 10, cancel = Some 1, items = Mapping.empty, queue = [], elems = [],
       sweepers = [\<lparr>captured_ticks = 2, ctx_done = False, stage = Spawned\<rparr>,
                   \<lparr>captured_ticks = 2, ctx_done = False, stage = Spawned\<rparr>]\<rparr> :: nat LRUCache) \<and>
   run [Start 0, Start 1, Call CallClear 0, Stop 0, Stop 1, Call (CallSet ''a'' 1) 100,
        Tick 0 200]
     (\<lparr>cap = 2, ttl = 10, cancel = Some 1, items = Mapping.empty, queue = [], elems = [],
       sweepers = [\<lparr>captured_ticks = 2, ctx_done = False, stage = Spawned\<rparr>,
                   \<lparr>captured_ticks = 2, ctx_done = False, stage = Spawned\<rparr>]\<rparr> :: nat LRUCache) =
     Inr ([ClearResult, SetResult False],
      \<lparr>cap = 2, ttl = 0, cancel = Some 1,
       items = Mapping.delete ''a'' (Mapping.update ''a'' 0 Mapping.empty), queue = [],
       elems = [\<lparr>key = ''a'', val = 1, expiresAt = 0\<rparr>],
       sweepers = [\<lparr>captured_ticks = 2, ctx_done = False, stage = Looping 5\<rparr>,
                   \<lparr>captured_ticks = 2, ctx_done = True, stage = Returned\<rparr>]\<rparr>)"
  by (simp add: New_def new_cache_def start_def stop_def NewTicker_def quo_def Clear_eq
      Set_def PushFront_def tick_def running_def clearExpired_def deleteItem_def Remove_def)

text \<open>
  C9. Two runs of a cache with one TTL option in which \<open>Clear\<close> does not do what is
  claimed. In the first the sweeper is in its loop, \<open>a\<close> is set, \<open>Clear\<close> cancels the
  context, \<open>b\<close> is set, and then the \<^verbatim>\<open>select\<close> of the sweeper takes a tick that was
  waiting rather than \<^verbatim>\<open>ctx.Done()\<close>: the scan removes \<open>b\<close>, whose \<open>expiresAt\<close> is the zero
  time because \<open>Clear\<close> has set the TTL to zero, and \<open>Get\<close> no longer finds it. In the
  second \<open>Clear\<close> is called before the goroutine of the sweeper has run: when it runs it
  divides the TTL that \<open>Clear\<close> has set to zero, and \<^verbatim>\<open>time.NewTicker\<close> panics.
\<close>

theorem sweeper_evicts_and_panics_after_Clear:
  "New 2 [WithTTL 10 2] =
     Inr (\<lparr>cap = 2, ttl = 10, cancel = Some 0, items = Mapping.empty, queue = [], elems = [],
       sweepers = [\<lparr>captured_ticks = 2, ctx_done = False, stage = Spawned\<rparr>]\<rparr> :: nat LRUCache) \<and>
   run [Start 0, Call (CallSet ''a'' 1) 0, Call CallClear 1, Call (CallSet ''b'' 2) 2,
        Tick 0 3]
     (\<lparr>cap = 2, ttl = 10, cancel = Some 0, items = Mapping.empty, queue = [], elems = [],
       sweepers = [\<lparr>captured_ticks = 2, ctx_done = False, stage = Spawned\<rparr>]\<rparr> :: nat LRUCache) =
     Inr ([SetResult False, ClearResult, SetResult False],
      \<lparr>cap = 2, ttl = 0, cancel = Some 0,
       items = Mapping.delete ''b'' (Mapping.update ''b'' 1 Mapping.empty), queue = [],
       elems = [\<lparr>key = ''a'', val = 1, expiresAt = 10\<rparr>,
                \<lparr>key = ''b'', val = 2, expiresAt = 0\<rparr>],
       sweepers = [\<lparr>captured_ticks = 2, ctx_done = True, stage = Looping 5\<rparr>]\<rparr>) \<and>
   fst (Get ''b'' 4
     (\<lparr>cap = 2, ttl = 0, cancel = Some 0,
       items = Mapping.delete ''b'' (Mapping.update ''b'' 1 Mapping.empty), queue = [],
       elems = [\<lparr>key = ''a'', val = 1, expiresAt = 10\<rparr>,
                \<lparr>key = ''b'', val = 2, expiresAt = 0\<rparr>],
       sweepers = [\<lparr>captured_ticks = 2, ctx_done = True, stage = Looping 5\<rparr>]\<rparr> :: nat LRUCache)) = (None, False) \<and>
   run [Call CallClear 0, Start 0]
     (\<lparr>cap = 2, ttl = 10, cancel = Some 0, items = Mapping.empty, queue = [], elems = [],
       sweepers = [\<lparr>captured_ticks = 2, ctx_done = False, stage = Spawned\<rparr>]\<rparr> :: nat LRUCache) =
     Inl NonPositiveTickerInterval"
  by (simp add: New_def new_cache_def start_def NewTicker_def quo_def Clear_eq
      Set_def Get_def PushFront_def Mapping.size_def tick_def running_def clearExpired_def
      deleteItem_def Remove_def)


section \<open>Clear and the mutex\<close>

text \<open>
  The only panic that a run of a constructed cache can end in is that of
  \<^verbatim>\<open>time.NewTicker\<close>, when the goroutine of a sweeper starts; a run of method calls and
  ticks always returns.
\<close>

lemma run_panics_in_NewTicker_only:
  assumes "New c options = Inr l0" and "run evs l0 = Inl p"
  shows "p = NonPositiveTickerInterval"
  using New_inv [OF assms(1)] run_panic [OF _ assms(2)] by blast

lemma run_of_calls_and_ticks_returns:
  assumes "New c options = Inr l0" and "\<forall>ev \<in> set evs. \<forall>j. ev \<noteq> Start j"
  shows "\<exists>rs l. run evs l0 = Inr (rs, l)"
  using New_inv [OF assms(1)] run_total [OF _ assms(2)] by blast

text \<open>
  C2. \<open>Set\<close>, \<open>Get\<close> and \<open>clearExpired\<close> hold the mutex from their first access to their
  return, so each is one step for the others. \<open>Clear\<close> does not take it: its statements
  are steps of their own, and another caller's \<open>Set\<close> can run between them. Here, on a
  cache of capacity 1 that holds \<open>a\<close>, \<open>Clear\<close> has emptied the hash table when a \<open>Set\<close> of
  \<open>b\<close> runs, and then empties the queue. The hash table is left with one entry and the
  queue with none, which neither order of \<open>Clear\<close> and that \<open>Set\<close> gives, and the next
  \<open>Set\<close> of a new key dereferences the nil that \<^verbatim>\<open>l.queue.Back()\<close> returns.
\<close>

theorem Clear_without_lock_interleaves_with_Set:
  "Set ''a'' 1 0 (new_cache 1 :: nat LRUCache) =
     Inr (False,
       \<lparr>cap = 1, ttl = 0, cancel = None, items = Mapping.update ''a'' 0 Mapping.empty,
        queue = [0], elems = [\<lparr>key = ''a'', val = 1, expiresAt = 0\<rparr>], sweepers = []\<rparr>) \<and>
   Set ''b'' 2 0
     (Clear_items (Clear_cancel
       (\<lparr>cap = 1, ttl = 0, cancel = None, items = Mapping.update ''a'' 0 Mapping.empty,
         queue = [0], elems = [\<lparr>key = ''a'', val = 1, expiresAt = 0\<rparr>], sweepers = []\<rparr>
        :: nat LRUCache))) =
     Inr (False,
       \<lparr>cap = 1, ttl = 0, cancel = None, items = Mapping.update ''b'' 1 Mapping.empty,
        queue = [1, 0],
        elems = [\<lparr>key = ''a'', val = 1, expiresAt = 0\<rparr>, \<lparr>key = ''b'', val = 2, expiresAt = 0\<rparr>],
        sweepers = []\<rparr>) \<and>
   Clear_queue
     (\<lparr>cap = 1, ttl = 0, cancel = None, items = Mapping.update ''b'' 1 Mapping.empty,
        queue = [1, 0],
        elems = [\<lparr>key = ''a'', val = 1, expiresAt = 0\<rparr>, \<lparr>key = ''b'', val = 2, expiresAt = 0\<rparr>],
        sweepers = []\<rparr> :: nat LRUCache) =
     \<lparr>cap = 1, ttl = 0, cancel = None, items = Mapping.update ''b'' 1 Mapping.empty,
        queue = [],
        elems = [\<lparr>key = ''a'', val = 1, expiresAt = 0\<rparr>, \<lparr>key = ''b'', val = 2, expiresAt = 0\<rparr>],
        sweepers = []\<rparr> \<and>
   Mapping.size (Mapping.update ''b'' (1::nat) Mapping.empty) = 1 \<and>
   Set ''c'' 3 0
     (\<lparr>cap = 1, ttl = 0, cancel = None, items = Mapping.update ''b'' 1 Mapping.empty,
        queue = [],
        elems = [\<lparr>key = ''a'', val = 1, expiresAt = 0\<rparr>, \<lparr>key = ''b'', val = 2, expiresAt = 0\<rparr>],
        sweepers = []\<rparr> :: nat LRUCache) =
     Inl NilPointerDereference"
  by (simp add: new_cache_def Set_def PushFront_def Clear_cancel_def Clear_items_def
      Clear_queue_def deleteItem_def Back_def Mapping.size_def)


section \<open>Construction\<close>

lemma apply_Option_fails_iff:
  "fst (apply_Option (WithTTL d n) l) =
     (if d \<le> 0 then Some TtlDurationMustBePositive
      else if n \<le> 1 then Some TicksMustBeGreater1 else None)"
  by simp

lemma apply_Option_error_leaves_cache:
  "apply_Option opt l = (Some e, l') \<Longrightarrow> l' = l"
  by (cases opt) (auto split: if_splits)

lemma apply_options_fails_iff:
  "fst (apply_options opts l) \<noteq> None \<longleftrightarrow>
     (\<exists>d n. WithTTL d n \<in> set opts \<and> (d \<le> 0 \<or> n \<le> 1))"
proof (induction opts arbitrary: l)
  case Nil
  then show ?case by simp
next
  case (Cons opt opts)
  obtain d n where o: "opt = WithTTL d n" by (cases opt)
  show ?case
  proof (cases "d \<le> 0 \<or> n \<le> 1")
    case True
    then show ?thesis using o by auto
  next
    case False
    then show ?thesis using o Cons.IH by auto
  qed
qed

lemma New_fails_iff:
  "(\<exists>e. New c opts = Inl e) \<longleftrightarrow>
     c \<le> 0 \<or> (\<exists>d n. WithTTL d n \<in> set opts \<and> (d \<le> 0 \<or> n \<le> 1))"
proof (cases "c \<le> 0")
  case True
  then show ?thesis by (simp add: New_def)
next
  case False
  obtain r l where a: "apply_options opts (new_cache c :: 'a LRUCache) = (r, l)"
    by (cases "apply_options opts (new_cache c :: 'a LRUCache)")
  from apply_options_fails_iff [of opts "new_cache c :: 'a LRUCache"] a
  have "r \<noteq> None \<longleftrightarrow> (\<exists>d n. WithTTL d n \<in> set opts \<and> (d \<le> 0 \<or> n \<le> 1))" by simp
  then show ?thesis using False a by (cases r) (auto simp: New_def)
qed

lemma New_nonpositive_cap:
  "c \<le> 0 \<Longrightarrow> New c opts = Inl CapMustBePositive"
  by (simp add: New_def)

lemma New_one_option:
  assumes "0 < c"
  shows "New c [WithTTL d n] =
           (if d \<le> 0 then Inl TtlDurationMustBePositive
            else if n \<le> 1 then Inl TicksMustBeGreater1
            else Inr (new_cache c\<lparr>ttl := d, cancel := Some 0,
                        sweepers := [\<lparr>captured_ticks = n, ctx_done = False, stage = Spawned\<rparr>]\<rparr>))"
  using assms by (simp add: New_def new_cache_def)

lemma NewTicker_period:
  assumes "0 < d" "1 < n"
  shows "NewTicker (quo d n) = (if d < n then Inl NonPositiveTickerInterval else Inr (d div n))"
proof -
  have q: "quo d n = d div n" using assms by (simp add: quo_def)
  show ?thesis
  proof (cases "d < n")
    case True
    then have "d div n = 0" using assms by (simp add: div_pos_pos_trivial)
    then show ?thesis using True q by (simp add: NewTicker_def)
  next
    case False
    then have "0 < d div n" using assms by (simp add: pos_imp_zdiv_pos_iff)
    then show ?thesis using False q by (simp add: NewTicker_def)
  qed
qed

text \<open>
  The goroutine of the one sweeper of a cache that \<open>New\<close> has just returned: it panics
  when the TTL is shorter than the number of ticks, and enters its loop otherwise.
\<close>

lemma start_after_New:
  assumes "0 < c" "0 < d" "1 < n" and "New c [WithTTL d n] = Inr l"
  shows "start 0 l =
           (if d < n then Inl NonPositiveTickerInterval
            else Inr (l\<lparr>sweepers :=
                   [\<lparr>captured_ticks = n, ctx_done = False, stage = Looping (d div n)\<rparr>]\<rparr>))"
proof -
  from assms have l: "l = new_cache c\<lparr>ttl := d, cancel := Some 0,
      sweepers := [\<lparr>captured_ticks = n, ctx_done = False, stage = Spawned\<rparr>]\<rparr>"
    by (simp add: New_one_option)
  show ?thesis
    using NewTicker_period [OF assms(2,3)] by (simp add: l start_def new_cache_def)
qed

text \<open>
  C8. Two inputs on which construction does not do what is claimed. With a valid TTL
  option followed by an invalid one, \<open>New\<close> returns the error of the second and no cache,
  but the loop over the options has already spawned the sweeper of the first, which
  enters its loop when its goroutine runs and which nothing can cancel. With a TTL
  shorter in nanoseconds than the number of ticks, the option is accepted and \<open>New\<close>
  returns a cache, but the period \<open>ttl / ticks\<close> is zero and the sweeper's
  \<^verbatim>\<open>time.NewTicker\<close> panics.
\<close>

theorem New_leaves_sweeper_on_failure_and_accepts_zero_period:
  "New 2 [WithTTL 10 2, WithTTL 0 2] = (Inl TtlDurationMustBePositive :: error + nat LRUCache) \<and>
   apply_options [WithTTL 10 2, WithTTL 0 2] (new_cache 2 :: nat LRUCache) =
     (Some TtlDurationMustBePositive,
      \<lparr>cap = 2, ttl = 10, cancel = Some 0, items = Mapping.empty, queue = [], elems = [],
       sweepers = [\<lparr>captured_ticks = 2, ctx_done = False, stage = Spawned\<rparr>]\<rparr>) \<and>
   start 0
     (\<lparr>cap = 2, ttl = 10, cancel = Some 0, items = Mapping.empty, queue = [], elems = [],
       sweepers = [\<lparr>captured_ticks = 2, ctx_done = False, stage = Spawned\<rparr>]\<rparr>
      :: nat LRUCache) =
     Inr \<lparr>cap = 2, ttl = 10, cancel = Some 0, items = Mapping.empty, queue = [], elems = [],
       sweepers = [\<lparr>captured_ticks = 2, ctx_done = False, stage = Looping 5\<rparr>]\<rparr> \<and>
   running \<lparr>captured_ticks = 2, ctx_done = False, stage = Looping 5\<rparr> \<and>
   New 2 [WithTTL 1 2] =
     Inr (\<lparr>cap = 2, ttl = 1, cancel = Some 0, items = Mapping.empty, queue = [], elems = [],
           sweepers = [\<lparr>captured_ticks = 2, ctx_done = False, stage = Spawned\<rparr>]\<rparr>
          :: nat LRUCache) \<and>
   start 0
     (\<lparr>cap = 2, ttl = 1, cancel = Some 0, items = Mapping.empty, queue = [], elems = [],
       sweepers = [\<lparr>captured_ticks = 2, ctx_done = False, stage = Spawned\<rparr>]\<rparr>
      :: nat LRUCache) =
     Inl NonPositiveTickerInterval"
  by (simp add: New_def new_cache_def start_def NewTicker_def quo_def running_def)

end
